theory Spec2Isabelle
  imports Main "HOL-Library.Sublist"
begin

section \<open>JavaScript strings and the patterns of \<open>start-agrichain.js\<close>\<close>

text \<open>
  A JavaScript string is modelled as a \<^typ>\<open>string\<close>: the list of its code units,
  here restricted to the 8-bit range. A chunk of process output is the string that
  \<^verbatim>\<open>data.toString()\<close> returns.
\<close>

definition quote :: char where
  "quote = CHR 0x27"

text \<open>\<^verbatim>\<open>s.includes(m)\<close>: \<open>m\<close> occurs in \<open>s\<close> at some position.\<close>

fun str_includes :: "string \<Rightarrow> string \<Rightarrow> bool" where
  "str_includes [] m = (m = [])"
| "str_includes (c # cs) m = (prefix m (c # cs) \<or> str_includes cs m)"

text \<open>The character classes \<^verbatim>\<open>\s\<close>, \<^verbatim>\<open>\d\<close>, \<^verbatim>\<open>[a-fA-F0-9]\<close> and \<^verbatim>\<open>[^']\<close>.\<close>

definition is_space :: "char \<Rightarrow> bool" where
  "is_space c = (of_char c \<in> {9, 10, 11, 12, 13, 32, 160 :: nat})"

definition is_digit :: "char \<Rightarrow> bool" where
  "is_digit c = (48 \<le> (of_char c :: nat) \<and> (of_char c :: nat) \<le> 57)"

definition is_hex :: "char \<Rightarrow> bool" where
  "is_hex c = (is_digit c
     \<or> (97 \<le> (of_char c :: nat) \<and> (of_char c :: nat) \<le> 102)
     \<or> (65 \<le> (of_char c :: nat) \<and> (of_char c :: nat) \<le> 70))"

definition not_quote :: "char \<Rightarrow> bool" where
  "not_quote c = (c \<noteq> quote)"

text \<open>
  A backtracking matcher in continuation style. A pattern takes the continuation that
  matches the rest of the regular expression, and the input at the current position;
  the result is what the continuation returns on the first way of matching that
  succeeds, in the order a JavaScript engine tries them (greedy quantifiers first take
  as much as they can, then give back).
\<close>

fun lit :: "string \<Rightarrow> (string \<Rightarrow> 'r option) \<Rightarrow> string \<Rightarrow> 'r option" where
  "lit l k s = (if prefix l s then k (drop (length l) s) else None)"

fun star :: "(char \<Rightarrow> bool) \<Rightarrow> (string \<Rightarrow> 'r option) \<Rightarrow> string \<Rightarrow> 'r option" where
  "star p k [] = k []"
| "star p k (c # cs) =
     (if p c then (case star p k cs of Some r \<Rightarrow> Some r | None \<Rightarrow> k (c # cs))
      else k (c # cs))"

fun plus :: "(char \<Rightarrow> bool) \<Rightarrow> (string \<Rightarrow> 'r option) \<Rightarrow> string \<Rightarrow> 'r option" where
  "plus p k [] = None"
| "plus p k (c # cs) = (if p c then star p k cs else None)"

fun rep :: "nat \<Rightarrow> (char \<Rightarrow> bool) \<Rightarrow> (string \<Rightarrow> 'r option) \<Rightarrow> string \<Rightarrow> 'r option" where
  "rep 0 p k s = k s"
| "rep (Suc n) p k [] = None"
| "rep (Suc n) p k (c # cs) = (if p c then rep n p k cs else None)"

text \<open>A capture group hands the text it consumed to the continuation.\<close>

definition group ::
  "((string \<Rightarrow> 'r option) \<Rightarrow> string \<Rightarrow> 'r option) \<Rightarrow> (string \<Rightarrow> string \<Rightarrow> 'r option)
     \<Rightarrow> string \<Rightarrow> 'r option" where
  "group m k s = m (\<lambda>rest. k (take (length s - length rest) s) rest) s"

text \<open>
  \<^verbatim>\<open>s.match(re)\<close> for a regular expression without the \<^verbatim>\<open>g\<close> flag: the leftmost
  position at which the pattern matches (the empty suffix included).
\<close>

fun rx_exec :: "(string \<Rightarrow> 'r option) \<Rightarrow> string \<Rightarrow> 'r option" where
  "rx_exec m [] = m []"
| "rx_exec m (c # cs) =
     (case m (c # cs) of Some r \<Rightarrow> Some r | None \<Rightarrow> rx_exec m cs)"

text \<open>
  The same search, keeping the text in front of the match, the matched text and the
  text behind it; the pattern returns the input left behind the match.
\<close>

fun rx_find ::
  "(string \<Rightarrow> string option) \<Rightarrow> string \<Rightarrow> string \<Rightarrow> (string \<times> string \<times> string) option" where
  "rx_find m pre [] =
     (case m [] of Some rest \<Rightarrow> Some (pre, [], rest) | None \<Rightarrow> None)"
| "rx_find m pre (c # cs) =
     (case m (c # cs) of
        Some rest \<Rightarrow> Some (pre, take (length (c # cs) - length rest) (c # cs), rest)
      | None \<Rightarrow> rx_find m (pre @ [c]) cs)"

text \<open>
  The replacement text of \<^verbatim>\<open>String.prototype.replace\<close> for a pattern without
  capture groups (GetSubstitution of ECMAScript): \<^verbatim>\<open>$$\<close> is a dollar sign,
  \<^verbatim>\<open>$&\<close> the matched text, \<^verbatim>\<open>$`\<close> the text in front of the match, \<^verbatim>\<open>$'\<close>
  the text behind it; every other character, a dollar sign included, stands for itself.
\<close>

fun get_substitution :: "string \<Rightarrow> string \<Rightarrow> string \<Rightarrow> string \<Rightarrow> string" where
  "get_substitution matched pre post [] = []"
| "get_substitution matched pre post [c] = [c]"
| "get_substitution matched pre post (c # d # ds) =
     (if c = CHR ''$'' then
        (if d = CHR ''$'' then CHR ''$'' # get_substitution matched pre post ds
         else if d = CHR ''&'' then matched @ get_substitution matched pre post ds
         else if d = CHR 0x60 then pre @ get_substitution matched pre post ds
         else if d = quote then post @ get_substitution matched pre post ds
         else c # get_substitution matched pre post (d # ds))
      else c # get_substitution matched pre post (d # ds))"

text \<open>\<^verbatim>\<open>s.replace(re, template)\<close>: the first match is replaced, a string without a match is returned as it is.\<close>

definition str_replace :: "(string \<Rightarrow> string option) \<Rightarrow> string \<Rightarrow> string \<Rightarrow> string" where
  "str_replace m template s =
     (case rx_find m [] s of
        None \<Rightarrow> s
      | Some (pre, matched, post) \<Rightarrow>
          pre @ get_substitution matched pre post template @ post)"

text \<open>\<^verbatim>\<open>/contract address:\s*(0x[a-fA-F0-9]{40})/\<close>, yielding capture group 1.\<close>

definition address_re :: "string \<Rightarrow> string option" where
  "address_re =
     lit ''contract address:'' (star is_space
       (group (\<lambda>k. lit ''0x'' (rep 40 is_hex k)) (\<lambda>captured rest. Some captured)))"

text \<open>\<^verbatim>\<open>/Network id:\s*(\d+)/\<close>, yielding capture group 1.\<close>

definition network_re :: "string \<Rightarrow> string option" where
  "network_re =
     lit ''Network id:'' (star is_space
       (group (plus is_digit) (\<lambda>captured rest. Some captured)))"

text \<open>\<^verbatim>\<open>/const networkId = '[^']*';/\<close>, yielding the input behind the match.\<close>

definition decl_open :: string where
  "decl_open = ''const networkId = '' @ [quote]"

definition decl_close :: string where
  "decl_close = [quote, CHR '';'']"

definition decl_re :: "string \<Rightarrow> string option" where
  "decl_re = lit decl_open (star not_quote (lit decl_close Some))"

section \<open>Errors and promises\<close>

text \<open>
  The errors of the script, under the names the specification gives them:
  \<open>ProcessExitedEarly code\<close> is \<^verbatim>\<open>Error("Ganache exited with code ...")\<close>,
  \<^verbatim>\<open>Error("Server exited with code ...")\<close> and
  \<^verbatim>\<open>Error("Contract deployment failed with code ...")\<close>; \<open>StartupTimeout\<close> is
  \<^verbatim>\<open>Error("Ganache startup timeout")\<close> and \<^verbatim>\<open>Error("Server startup timeout")\<close>;
  \<open>DeploymentArtifactMissing\<close> is \<^verbatim>\<open>Error("Contract not properly deployed")\<close>;
  \<open>CallRejected\<close> is the rejection of a \<^verbatim>\<open>send\<close>; \<open>ConfigArtifactUnreadable\<close> is what
  \<^verbatim>\<open>fs.readFileSync\<close> throws, and \<open>ModuleNotFound\<close> what \<^verbatim>\<open>require\<close> throws.
\<close>

datatype error =
    ProcessExitedEarly "int option"
  | StartupTimeout
  | ConfigArtifactUnreadable
  | ModuleNotFound
  | DeploymentArtifactMissing
  | CallRejected string

text \<open>A promise settles once: \<open>resolve\<close> and \<open>reject\<close> on a settled promise do nothing.\<close>

datatype 'a promise = Pending | Fulfilled 'a | Rejected error

fun resolve :: "'a \<Rightarrow> 'a promise \<Rightarrow> 'a promise" where
  "resolve v Pending = Fulfilled v"
| "resolve v p = p"

fun reject :: "error \<Rightarrow> 'a promise \<Rightarrow> 'a promise" where
  "reject e Pending = Rejected e"
| "reject e p = p"

section \<open>Step 3: \<open>updateServerConfig\<close>\<close>

text \<open>
  The file \<^verbatim>\<open>server/index.js\<close> is its content, or \<open>None\<close> when it cannot be read.
  The result is the content that \<^verbatim>\<open>fs.writeFileSync\<close> writes back. The parameter
  \<^verbatim>\<open>networkId\<close> is \<open>netId\<close> here and below.
\<close>

definition updateServerConfig :: "string \<Rightarrow> string option \<Rightarrow> error + string" where
  "updateServerConfig netId file =
     (case file of
        None \<Rightarrow> Inl ConfigArtifactUnreadable
      | Some serverContent \<Rightarrow>
          Inr (str_replace decl_re (decl_open @ netId @ decl_close) serverContent))"

section \<open>Child processes and the event loop\<close>

text \<open>
  What a spawned process does is the list of the events it emits: a chunk on its
  standard output, a chunk on its standard error, or its \<^verbatim>\<open>close\<close> with the exit code
  (\<open>None\<close> is JavaScript's \<^verbatim>\<open>null\<close>, the code of a process ended by a signal). Every
  event carries the milliseconds elapsed since the event before it (since the spawn,
  for the first one).
\<close>

datatype event = Stdout string | Stderr string | Close "int option"

type_synonym trace = "(nat \<times> event) list"

text \<open>The two callbacks the script hands to \<^verbatim>\<open>setTimeout\<close>.\<close>

datatype timer = StartupTimer | SettleTimer

text \<open>
  The variables a readiness step closes over: its flag (\<^verbatim>\<open>ganacheReady\<close>,
  \<^verbatim>\<open>serverReady\<close>), the promise it returns, the timers that are armed, with the time at
  which each is due, earliest first, and the time elapsed since the spawn.
\<close>

record step_state =
  ready :: bool
  outcome :: "unit promise"
  timers :: "(nat \<times> timer) list"
  clock :: nat

text \<open>\<^verbatim>\<open>setTimeout(cb, delay)\<close>: the timer is queued behind those due no later.\<close>

fun insert_timer :: "nat \<times> timer \<Rightarrow> (nat \<times> timer) list \<Rightarrow> (nat \<times> timer) list" where
  "insert_timer x [] = [x]"
| "insert_timer x (y # ys) = (if fst x < fst y then x # y # ys else y # insert_timer x ys)"

definition set_timeout :: "timer \<Rightarrow> nat \<Rightarrow> step_state \<Rightarrow> step_state" where
  "set_timeout cb delay st = st\<lparr>timers := insert_timer (clock st + delay, cb) (timers st)\<rparr>"

text \<open>
  The timers due at or before time \<open>t\<close> run, earliest first, and leave the queue. (No
  timer callback of the script arms a timer.)
\<close>

fun fire_due ::
  "(timer \<Rightarrow> step_state \<Rightarrow> step_state) \<Rightarrow> nat \<Rightarrow> (nat \<times> timer) list \<Rightarrow> step_state \<Rightarrow> step_state" where
  "fire_due on_timer t [] st = st\<lparr>timers := []\<rparr>"
| "fire_due on_timer t ((due, cb) # rest) st =
     (if due \<le> t then fire_due on_timer t rest (on_timer cb st)
      else st\<lparr>timers := (due, cb) # rest\<rparr>)"

definition advance :: "(timer \<Rightarrow> step_state \<Rightarrow> step_state) \<Rightarrow> nat \<Rightarrow> step_state \<Rightarrow> step_state" where
  "advance on_timer t st = (fire_due on_timer t (timers st) st)\<lparr>clock := t\<rparr>"

text \<open>
  The loop delivers the events in order; before an event it runs the timers that have
  become due. When the process emits nothing more, the timers still armed run in turn.
\<close>

fun run_events ::
  "(event \<Rightarrow> step_state \<Rightarrow> step_state) \<Rightarrow> (timer \<Rightarrow> step_state \<Rightarrow> step_state)
     \<Rightarrow> trace \<Rightarrow> step_state \<Rightarrow> step_state" where
  "run_events on_event on_timer [] st = st"
| "run_events on_event on_timer ((delay, e) # evs) st =
     run_events on_event on_timer evs (on_event e (advance on_timer (clock st + delay) st))"

definition drain :: "(timer \<Rightarrow> step_state \<Rightarrow> step_state) \<Rightarrow> step_state \<Rightarrow> step_state" where
  "drain on_timer st = fold on_timer (map snd (timers st)) (st\<lparr>timers := []\<rparr>)"

section \<open>Step 1: \<open>startGanache\<close>\<close>

definition ganache_event :: "event \<Rightarrow> step_state \<Rightarrow> step_state" where
  "ganache_event e st =
     (case e of
        Stdout output \<Rightarrow>
          (if str_includes output ''Listening on'' \<and> \<not> ready st
           then set_timeout SettleTimer 2000 (st\<lparr>ready := True\<rparr>)
           else st)
      | Stderr output \<Rightarrow> st
      | Close code \<Rightarrow>
          (if code \<noteq> Some 0 \<and> code \<noteq> None
           then st\<lparr>outcome := reject (ProcessExitedEarly code) (outcome st)\<rparr>
           else st))"

definition ganache_timer :: "timer \<Rightarrow> step_state \<Rightarrow> step_state" where
  "ganache_timer cb st =
     (case cb of
        SettleTimer \<Rightarrow> st\<lparr>outcome := resolve () (outcome st)\<rparr>
      | StartupTimer \<Rightarrow>
          (if \<not> ready st then st\<lparr>outcome := reject StartupTimeout (outcome st)\<rparr> else st))"

definition ganache_init :: step_state where
  "ganache_init =
     set_timeout StartupTimer 30000 \<lparr>ready = False, outcome = Pending, timers = [], clock = 0\<rparr>"

definition ganache_feed :: "trace \<Rightarrow> step_state" where
  "ganache_feed evs = run_events ganache_event ganache_timer evs ganache_init"

definition startGanache :: "trace \<Rightarrow> unit promise" where
  "startGanache evs = outcome (drain ganache_timer (ganache_feed evs))"

section \<open>Step 5: \<open>startServer\<close>\<close>

definition server_event :: "event \<Rightarrow> step_state \<Rightarrow> step_state" where
  "server_event e st =
     (case e of
        Stdout output \<Rightarrow>
          (if str_includes output ''Server on port'' \<and> \<not> ready st
           then st\<lparr>ready := True, outcome := resolve () (outcome st)\<rparr>
           else st)
      | Stderr output \<Rightarrow> st
      | Close code \<Rightarrow>
          (if code \<noteq> Some 0 \<and> code \<noteq> None
           then st\<lparr>outcome := reject (ProcessExitedEarly code) (outcome st)\<rparr>
           else st))"

definition server_timer :: "timer \<Rightarrow> step_state \<Rightarrow> step_state" where
  "server_timer cb st =
     (case cb of
        SettleTimer \<Rightarrow> st
      | StartupTimer \<Rightarrow>
          (if \<not> ready st then st\<lparr>outcome := reject StartupTimeout (outcome st)\<rparr> else st))"

definition server_init :: step_state where
  "server_init =
     set_timeout StartupTimer 15000 \<lparr>ready = False, outcome = Pending, timers = [], clock = 0\<rparr>"

definition server_feed :: "trace \<Rightarrow> step_state" where
  "server_feed evs = run_events server_event server_timer evs server_init"

definition startServer :: "trace \<Rightarrow> unit promise" where
  "startServer evs = outcome (drain server_timer (server_feed evs))"

section \<open>Step 2: \<open>deployContract\<close>\<close>

record deploy_state =
  contractAddress :: string
  networkId :: string
  deployed :: "(string \<times> string) promise"

definition deploy_event :: "event \<Rightarrow> deploy_state \<Rightarrow> deploy_state" where
  "deploy_event e st =
     (case e of
        Stdout output \<Rightarrow>
          (let st1 = (case rx_exec address_re output of
                        Some captured \<Rightarrow> st\<lparr>contractAddress := captured\<rparr>
                      | None \<Rightarrow> st)
           in (case rx_exec network_re output of
                 Some captured \<Rightarrow> st1\<lparr>networkId := captured\<rparr>
               | None \<Rightarrow> st1))
      | Stderr output \<Rightarrow> st
      | Close code \<Rightarrow>
          (if code = Some 0
           then st\<lparr>deployed := resolve (contractAddress st, networkId st) (deployed st)\<rparr>
           else st\<lparr>deployed := reject (ProcessExitedEarly code) (deployed st)\<rparr>))"

definition deploy_init :: deploy_state where
  "deploy_init = \<lparr>contractAddress = [], networkId = [], deployed = Pending\<rparr>"

text \<open>The step arms no timer, so the delays of the events play no part.\<close>

definition deploy_feed :: "trace \<Rightarrow> deploy_state" where
  "deploy_feed evs = fold deploy_event (map snd evs) deploy_init"

definition deployContract :: "trace \<Rightarrow> (string \<times> string) promise" where
  "deployContract evs = deployed (deploy_feed evs)"

section \<open>Step 4: \<open>createTestData\<close>\<close>

record item =
  name :: string
  origin :: string
  price :: int
  quality :: string

text \<open>
  The two contract methods the script sends, each from \<^verbatim>\<open>farmerAccount\<close> with gas
  3000000: \<^verbatim>\<open>addFarmer(account)\<close> and \<^verbatim>\<open>harvestItem(name, origin, price, quality)\<close>.
\<close>

datatype call = AddFarmer string | HarvestItem string string int string

text \<open>
  The network decides on every call, given the calls it has acknowledged so far:
  \<open>None\<close> is the acknowledgment the \<^verbatim>\<open>await\<close> waits for, \<open>Some msg\<close> the rejection of
  the \<^verbatim>\<open>send\<close> with that message.
\<close>

type_synonym network = "call list \<Rightarrow> call \<Rightarrow> string option"

definition farmerAccount :: string where
  "farmerAccount = ''0x90F8bf6A479f320ead074411a4B0e7944Ea8c9C1''"

definition testItems :: "item list" where
  "testItems =
     [\<lparr>name = ''Mango'', origin = ''Mumbai'', price = 1000, quality = ''Premium''\<rparr>,
      \<lparr>name = ''Rice'', origin = ''Punjab'', price = 500, quality = ''Organic''\<rparr>,
      \<lparr>name = ''Wheat'', origin = ''Haryana'', price = 300, quality = ''Standard''\<rparr>]"

definition harvest_call :: "item \<Rightarrow> call" where
  "harvest_call it = HarvestItem (name it) (origin it) (price it) (quality it)"

text \<open>
  The \<^verbatim>\<open>for\<close> loop over the items. The calls sent so far are threaded through; a
  rejected \<^verbatim>\<open>send\<close> throws, which ends the loop.
\<close>

fun harvest_items :: "network \<Rightarrow> item list \<Rightarrow> call list \<Rightarrow> call list \<times> (error + unit)" where
  "harvest_items net [] sent = (sent, Inr ())"
| "harvest_items net (it # its) sent =
     (case net sent (harvest_call it) of
        Some msg \<Rightarrow> (sent @ [harvest_call it], Inl (CallRejected msg))
      | None \<Rightarrow> harvest_items net its (sent @ [harvest_call it]))"

text \<open>The calls of the function for a list of items: the farmer first, then the loop.\<close>

definition seed :: "network \<Rightarrow> item list \<Rightarrow> call list \<times> (error + unit)" where
  "seed net items =
     (case net [] (AddFarmer farmerAccount) of
        Some msg \<Rightarrow> ([AddFarmer farmerAccount], Inl (CallRejected msg))
      | None \<Rightarrow> harvest_items net items [AddFarmer farmerAccount])"

text \<open>
  The build artifact \<^verbatim>\<open>AgriSupplyChain.json\<close>: its \<^verbatim>\<open>networks\<close> object, if it has
  one, maps a network identifier to a deployment, of which only the \<^verbatim>\<open>address\<close>, if it
  has one, is read. \<open>None\<close> for the whole artifact is a file that \<^verbatim>\<open>require\<close> cannot
  load.
\<close>

record artifact =
  abi :: string
  networks :: "(string \<Rightarrow> string option option) option"

definition createTestData ::
  "network \<Rightarrow> artifact option \<Rightarrow> string \<Rightarrow> call list \<times> (error + unit)" where
  "createTestData net build netId =
     (case build of
        None \<Rightarrow> ([], Inl ModuleNotFound)
      | Some contractJSON \<Rightarrow>
          (case (case networks contractJSON of None \<Rightarrow> None | Some ns \<Rightarrow> ns netId) of
             None \<Rightarrow> ([], Inl DeploymentArtifactMissing)
           | Some address \<Rightarrow>
               (if address = None \<or> address = Some []
                then ([], Inl DeploymentArtifactMissing)
                else seed net testItems)))"

section \<open>The supervisor: \<open>cleanup\<close> and \<open>main\<close>\<close>

datatype proc = GanacheProc | MigrateProc | ServerProc

datatype signal = SIGTERM

text \<open>
  The two module variables of the script, and the child processes spawned so far, in
  the order of their start.
\<close>

record supervisor =
  ganacheProcess :: "proc option"
  serverProcess :: "proc option"
  spawned :: "proc list"

definition supervisor_init :: supervisor where
  "supervisor_init = \<lparr>ganacheProcess = None, serverProcess = None, spawned = []\<rparr>"

text \<open>
  The three \<^verbatim>\<open>spawn\<close> calls: \<^verbatim>\<open>startGanache\<close> and \<^verbatim>\<open>startServer\<close> assign the handle
  to a module variable, \<^verbatim>\<open>deployContract\<close> keeps it in a local constant.
\<close>

definition spawn_ganache :: "supervisor \<Rightarrow> supervisor" where
  "spawn_ganache sv = sv\<lparr>ganacheProcess := Some GanacheProc, spawned := spawned sv @ [GanacheProc]\<rparr>"

definition spawn_migrate :: "supervisor \<Rightarrow> supervisor" where
  "spawn_migrate sv = sv\<lparr>spawned := spawned sv @ [MigrateProc]\<rparr>"

definition spawn_server :: "supervisor \<Rightarrow> supervisor" where
  "spawn_server sv = sv\<lparr>serverProcess := Some ServerProc, spawned := spawned sv @ [ServerProc]\<rparr>"

text \<open>
  \<^verbatim>\<open>cleanup\<close>: the signals it sends, and the status of the \<^verbatim>\<open>process.exit\<close> it ends
  with (\<open>None\<close> would be a return to the caller).
\<close>

definition cleanup :: "supervisor \<Rightarrow> (proc \<times> signal) list \<times> int option" where
  "cleanup sv =
     ((case ganacheProcess sv of Some p \<Rightarrow> [(p, SIGTERM)] | None \<Rightarrow> [])
        @ (case serverProcess sv of Some p \<Rightarrow> [(p, SIGTERM)] | None \<Rightarrow> []),
      Some 0)"

text \<open>
  What the script is run against: the events of its three child processes, the file
  \<^verbatim>\<open>server/index.js\<close>, the build artifact and the network.
\<close>

record world =
  ganache_output :: trace
  migrate_output :: trace
  server_output :: trace
  server_index_js :: "string option"
  build_artifact :: "artifact option"
  chain :: network

text \<open>
  What a run does: the exit status of the script (\<open>None\<close> while it does not exit), the
  error that \<^verbatim>\<open>main\<close> caught, the signals sent, the child processes spawned, the
  content written to \<^verbatim>\<open>server/index.js\<close>, and the calls sent to the contract.
\<close>

record run =
  exit_status :: "int option"
  failure :: "error option"
  signalled :: "(proc \<times> signal) list"
  children :: "proc list"
  written :: "string option"
  sent_calls :: "call list"

text \<open>A run that waits: on a promise that is never settled, or at the end of \<^verbatim>\<open>main\<close>.\<close>

definition waiting :: "supervisor \<Rightarrow> string option \<Rightarrow> call list \<Rightarrow> run" where
  "waiting sv content calls =
     \<lparr>exit_status = None, failure = None, signalled = [], children = spawned sv,
      written = content, sent_calls = calls\<rparr>"

text \<open>
  The \<^verbatim>\<open>catch\<close> block of \<^verbatim>\<open>main\<close>: \<^verbatim>\<open>cleanup()\<close>, and \<^verbatim>\<open>process.exit(1)\<close> if
  \<^verbatim>\<open>cleanup\<close> returns.
\<close>

definition main_catch :: "error \<Rightarrow> supervisor \<Rightarrow> string option \<Rightarrow> call list \<Rightarrow> run" where
  "main_catch e sv content calls =
     (case cleanup sv of (signals, exited) \<Rightarrow>
        \<lparr>exit_status = (case exited of Some status \<Rightarrow> Some status | None \<Rightarrow> Some 1),
         failure = Some e, signalled = signals, children = spawned sv,
         written = content, sent_calls = calls\<rparr>)"

definition main :: "world \<Rightarrow> run" where
  "main w =
     (let sv1 = spawn_ganache supervisor_init in
      case startGanache (ganache_output w) of
        Pending \<Rightarrow> waiting sv1 None []
      | Rejected e \<Rightarrow> main_catch e sv1 None []
      | Fulfilled _ \<Rightarrow>
          (let sv2 = spawn_migrate sv1 in
           case deployContract (migrate_output w) of
             Pending \<Rightarrow> waiting sv2 None []
           | Rejected e \<Rightarrow> main_catch e sv2 None []
           | Fulfilled (address, netId) \<Rightarrow>
               (case updateServerConfig netId (server_index_js w) of
                  Inl e \<Rightarrow> main_catch e sv2 None []
                | Inr content \<Rightarrow>
                    (case createTestData (chain w) (build_artifact w) netId of
                       (calls, Inl e) \<Rightarrow> main_catch e sv2 (Some content) calls
                     | (calls, Inr _) \<Rightarrow>
                         (let sv3 = spawn_server sv2 in
                          case startServer (server_output w) of
                            Pending \<Rightarrow> waiting sv3 (Some content) calls
                          | Rejected e \<Rightarrow> main_catch e sv3 (Some content) calls
                          | Fulfilled _ \<Rightarrow> waiting sv3 (Some content) calls)))))"

section \<open>Observations on traces and states\<close>

text \<open>
  An event shows the readiness marker when it is a chunk of standard output that
  contains it; it is a failing close when the close handlers of the two readiness
  steps reject on it (an exit code that is neither 0 nor \<^verbatim>\<open>null\<close>).
\<close>

fun emits :: "string \<Rightarrow> event \<Rightarrow> bool" where
  "emits marker (Stdout output) = str_includes output marker"
| "emits marker (Stderr output) = False"
| "emits marker (Close code) = False"

fun failing_close :: "event \<Rightarrow> bool" where
  "failing_close (Close code) = (code \<noteq> Some 0 \<and> code \<noteq> None)"
| "failing_close (Stdout output) = False"
| "failing_close (Stderr output) = False"

text \<open>The time a trace takes, and a trace with neither the marker nor a failing close.\<close>

definition elapsed :: "trace \<Rightarrow> nat" where
  "elapsed evs = sum_list (map fst evs)"

definition quiet :: "string \<Rightarrow> trace \<Rightarrow> bool" where
  "quiet marker evs = list_all (\<lambda>(d, e). \<not> emits marker e \<and> \<not> failing_close e) evs"

text \<open>The events of a trace that arrive before the time \<open>limit\<close>.\<close>

fun before :: "nat \<Rightarrow> trace \<Rightarrow> trace" where
  "before limit [] = []"
| "before limit ((delay, e) # evs) =
     (if delay < limit then (delay, e) # before (limit - delay) evs else [])"

text \<open>The state of a readiness step \<open>delay\<close> milliseconds after the last event of a trace.\<close>

definition ganache_at :: "trace \<Rightarrow> nat \<Rightarrow> step_state" where
  "ganache_at evs delay =
     advance ganache_timer (clock (ganache_feed evs) + delay) (ganache_feed evs)"

definition server_at :: "trace \<Rightarrow> nat \<Rightarrow> step_state" where
  "server_at evs delay =
     advance server_timer (clock (server_feed evs) + delay) (server_feed evs)"

text \<open>
  Two kinds of state of a step that has seen neither its marker nor a failing close:
  still waiting, with the startup timer armed, and timed out.
\<close>

definition waiting_for :: "nat \<Rightarrow> step_state \<Rightarrow> bool" where
  "waiting_for limit st = (\<not> ready st \<and> outcome st = Pending
     \<and> timers st = [(limit, StartupTimer)] \<and> clock st < limit)"

definition timed_out :: "nat \<Rightarrow> step_state \<Rightarrow> bool" where
  "timed_out limit st = (\<not> ready st \<and> outcome st = Rejected StartupTimeout
     \<and> timers st = [] \<and> limit \<le> clock st)"

text \<open>
  A network step that has seen its marker and waits for the settle timer, due at the
  time \<open>due\<close>; the startup timer is still armed or has run without effect.
\<close>

definition settling :: "nat \<Rightarrow> step_state \<Rightarrow> bool" where
  "settling due st = (ready st \<and> outcome st = Pending \<and> clock st < due
     \<and> (timers st = [(due, SettleTimer), (30000, StartupTimer)]
        \<or> (timers st = [(30000, StartupTimer), (due, SettleTimer)] \<and> 30000 \<le> due)
        \<or> timers st = [(due, SettleTimer)]))"

text \<open>The timer that will settle a pending promise is armed.\<close>

definition armed :: "bool \<Rightarrow> (nat \<times> timer) list \<Rightarrow> bool" where
  "armed r ts = (\<exists>due. (due, if r then SettleTimer else StartupTimer) \<in> set ts)"

definition s_armed :: "bool \<Rightarrow> (nat \<times> timer) list \<Rightarrow> bool" where
  "s_armed r ts = (\<not> r \<and> (\<exists>due. (due, StartupTimer) \<in> set ts))"

text \<open>
  What the deployment step does with its output: a chunk is unmatched when neither
  pattern matches in it, and the captures of a pattern are what it yields on the
  chunks of a trace, in order.
\<close>

fun unmatched :: "event \<Rightarrow> bool" where
  "unmatched (Stdout output) =
     (rx_exec address_re output = None \<and> rx_exec network_re output = None)"
| "unmatched (Stderr output) = True"
| "unmatched (Close code) = False"

fun capture :: "(string \<Rightarrow> string option) \<Rightarrow> event \<Rightarrow> string option" where
  "capture re (Stdout output) = rx_exec re output"
| "capture re (Stderr output) = None"
| "capture re (Close code) = None"

definition captures :: "(string \<Rightarrow> string option) \<Rightarrow> trace \<Rightarrow> string list" where
  "captures re tr = List.map_filter (\<lambda>(d, e). capture re e) tr"

section \<open>A run of the scenario, and runs that fail\<close>

text \<open>
  The scenario of the specification: the network reports that it listens, the
  migration prints the address and the network identifier and exits with code 0, the
  server file declares an empty identifier, the artifact records the deployment, the
  network acknowledges every call, and the server reports its port.
\<close>

definition scenario :: world where
  "scenario =
     \<lparr>ganache_output = [(1200, Stdout ''Listening on 127.0.0.1:7545'')],
      migrate_output =
        [(900, Stdout ''contract address: 0xABCDEF0123456789ABCDEF0123456789ABCDEF01''),
         (40, Stdout ''Network id: 5777''),
         (2500, Close (Some 0))],
      server_output = [(800, Stdout ''Server on port 5000'')],
      server_index_js = Some (decl_open @ decl_close),
      build_artifact =
        Some \<lparr>abi = [], networks = Some (\<lambda>n. if n = ''5777'' then Some (Some ''0xABCDEF'') else None)\<rparr>,
      chain = (\<lambda>acked c. None)\<rparr>"

text \<open>The same, with a network process that exits with code 1 at once.\<close>

definition ganache_crash :: world where
  "ganache_crash = scenario\<lparr>ganache_output := [(300, Close (Some 1))]\<rparr>"

text \<open>The same, with a migration that exits with code 1.\<close>

definition migrate_crash :: world where
  "migrate_crash = scenario\<lparr>migrate_output := [(700, Close (Some 1))]\<rparr>"

section \<open>Strings and patterns: auxiliary facts\<close>

lemma star_not_quote:
  "star not_quote (lit decl_close Some) s =
     (if prefix decl_close (dropWhile not_quote s)
      then Some (drop 2 (dropWhile not_quote s)) else None)"
proof (induction s)
  case Nil
  show ?case by (simp add: decl_close_def)
next
  case (Cons c cs)
  show ?case
  proof (cases "not_quote c")
    case True
    then have "\<not> prefix decl_close (c # cs)"
      by (auto simp: decl_close_def not_quote_def)
    with True Cons show ?thesis by (auto simp: decl_close_def)
  next
    case False
    then show ?thesis by (auto simp: decl_close_def)
  qed
qed

lemma length_decl_open: "length decl_open = 19"
  by (simp add: decl_open_def)

lemma decl_re_eq:
  "decl_re s =
     (if prefix decl_open s \<and> prefix decl_close (dropWhile not_quote (drop 19 s))
      then Some (drop 2 (dropWhile not_quote (drop 19 s))) else None)"
  by (simp add: decl_re_def star_not_quote length_decl_open)

text \<open>A match of the declaration pattern at the start of the input, as a decomposition.\<close>

lemma decl_re_Some_iff:
  "decl_re s = Some r \<longleftrightarrow>
     (\<exists>q. s = decl_open @ q @ decl_close @ r \<and> quote \<notin> set q)"
proof
  assume m: "decl_re s = Some r"
  then have p: "prefix decl_open s"
    and c: "prefix decl_close (dropWhile not_quote (drop 19 s))"
    and r: "r = drop 2 (dropWhile not_quote (drop 19 s))"
    by (auto simp: decl_re_eq split: if_splits)
  let ?t = "drop 19 s"
  from p have s: "s = decl_open @ ?t"
    by (metis append_take_drop_id length_decl_open prefix_def append_eq_conv_conj)
  from c r have d: "dropWhile not_quote ?t = decl_close @ r"
    by (metis append_eq_conv_conj prefix_def length_Cons list.size(3) decl_close_def
        numeral_2_eq_2)
  have "?t = takeWhile not_quote ?t @ decl_close @ r"
    using d by (metis takeWhile_dropWhile_id)
  moreover have "quote \<notin> set (takeWhile not_quote ?t)"
    by (auto simp: not_quote_def dest: set_takeWhileD)
  ultimately show "\<exists>q. s = decl_open @ q @ decl_close @ r \<and> quote \<notin> set q"
    using s by metis
next
  assume "\<exists>q. s = decl_open @ q @ decl_close @ r \<and> quote \<notin> set q"
  then obtain q where s: "s = decl_open @ q @ decl_close @ r" and q: "quote \<notin> set q"
    by blast
  have dw: "dropWhile not_quote (q @ decl_close @ r) = decl_close @ r"
    using q by (simp add: dropWhile_append3 not_quote_def decl_close_def dropWhile_append)
  show "decl_re s = Some r"
    by (simp add: decl_re_eq s length_decl_open dw) (simp add: decl_close_def)
qed

lemma rx_find_None: "rx_find m pre s = None \<longleftrightarrow> (\<forall>i\<le>length s. m (drop i s) = None)"
proof (induction s arbitrary: pre)
  case Nil
  show ?case by (simp split: option.splits)
next
  case (Cons c cs)
  show ?case
  proof (cases "m (c # cs)")
    case None
    have "(\<forall>i\<le>length (c # cs). m (drop i (c # cs)) = None) \<longleftrightarrow>
          (\<forall>i\<le>length cs. m (drop i cs) = None)"
    proof
      assume a: "\<forall>i\<le>length (c # cs). m (drop i (c # cs)) = None"
      show "\<forall>i\<le>length cs. m (drop i cs) = None"
      proof (intro allI impI)
        fix i assume "i \<le> length cs"
        then show "m (drop i cs) = None" using a [rule_format, of "Suc i"] by simp
      qed
    next
      assume a: "\<forall>i\<le>length cs. m (drop i cs) = None"
      show "\<forall>i\<le>length (c # cs). m (drop i (c # cs)) = None"
      proof (intro allI impI)
        fix i assume "i \<le> length (c # cs)"
        then show "m (drop i (c # cs)) = None" using a None by (cases i) auto
      qed
    qed
    with None Cons show ?thesis by simp
  next
    case (Some r)
    then have "\<not> (\<forall>i\<le>length (c # cs). m (drop i (c # cs)) = None)"
      by (metis drop0 le0 option.distinct(1))
    with Some show ?thesis by simp
  qed
qed

lemma rx_find_append:
  "(\<forall>j<length x. m (drop j (x @ y)) = None) \<Longrightarrow> m y = Some a \<Longrightarrow>
   rx_find m pre (x @ y) = Some (pre @ x, take (length y - length a) y, a)"
proof (induction x arbitrary: pre)
  case Nil
  then show ?case by (cases y) auto
next
  case (Cons c cs)
  from Cons.prems(1) have h: "m (c # cs @ y) = None"
    by (metis append_Cons drop0 length_greater_0_conv list.discI)
  have "\<forall>j<length cs. m (drop j (cs @ y)) = None"
  proof (intro allI impI)
    fix j assume "j < length cs"
    then show "m (drop j (cs @ y)) = None"
      using Cons.prems(1) [rule_format, of "Suc j"] by simp
  qed
  from Cons.IH [OF this Cons.prems(2), of "pre @ [c]"] h show ?case by simp
qed

lemma rx_find_SomeD:
  "rx_find m pre s = Some (b, mt, a) \<Longrightarrow>
   \<exists>x y. s = x @ y \<and> b = pre @ x \<and> m y = Some a \<and> mt = take (length y - length a) y
     \<and> (\<forall>j<length x. m (drop j s) = None)"
proof (induction s arbitrary: pre)
  case Nil
  then show ?case by (auto split: option.splits)
next
  case (Cons c cs)
  show ?case
  proof (cases "m (c # cs)")
    case (Some r)
    with Cons.prems show ?thesis
      by (intro exI [of _ "[]"] exI [of _ "c # cs"]) auto
  next
    case None
    with Cons.prems have "rx_find m (pre @ [c]) cs = Some (b, mt, a)" by simp
    from Cons.IH [OF this] obtain x y where
      xy: "cs = x @ y" "b = (pre @ [c]) @ x" "m y = Some a"
        "mt = take (length y - length a) y" "\<forall>j<length x. m (drop j cs) = None"
      by blast
    have "\<forall>j<length (c # x). m (drop j (c # cs)) = None"
    proof (intro allI impI)
      fix j assume "j < length (c # x)"
      then show "m (drop j (c # cs)) = None" using xy(5) None by (cases j) auto
    qed
    with xy show ?thesis
      by (intro exI [of _ "c # x"] exI [of _ y]) auto
  qed
qed

lemma decl_present_iff:
  "rx_find decl_re pre s \<noteq> None \<longleftrightarrow>
     (\<exists>x q r. s = x @ decl_open @ q @ decl_close @ r \<and> quote \<notin> set q)"
proof
  assume "rx_find decl_re pre s \<noteq> None"
  then obtain b mt a where "rx_find decl_re pre s = Some (b, mt, a)" by auto
  from rx_find_SomeD [OF this] obtain x y where "s = x @ y" "decl_re y = Some a"
    by blast
  then show "\<exists>x q r. s = x @ decl_open @ q @ decl_close @ r \<and> quote \<notin> set q"
    by (auto simp: decl_re_Some_iff)
next
  assume "\<exists>x q r. s = x @ decl_open @ q @ decl_close @ r \<and> quote \<notin> set q"
  then obtain x q r where s: "s = x @ decl_open @ q @ decl_close @ r" and q: "quote \<notin> set q"
    by blast
  then have "decl_re (drop (length x) s) = Some r"
    by (auto simp: decl_re_Some_iff)
  moreover have "length x \<le> length s" by (simp add: s)
  ultimately show "rx_find decl_re pre s \<noteq> None"
    by (metis rx_find_None option.distinct(1))
qed

lemma get_substitution_plain:
  "CHR ''$'' \<notin> set t \<Longrightarrow> get_substitution m b a t = t"
  by (induction m b a t rule: get_substitution.induct) auto

lemma decl_open_nth_c: "n < 19 \<Longrightarrow> decl_open ! n = CHR ''c'' \<Longrightarrow> n = 0"
proof (rule ccontr)
  assume n: "n < 19" and c: "decl_open ! n = CHR ''c''" and "n \<noteq> 0"
  then obtain k where k: "n = Suc k" by (cases n) auto
  with n have "tl decl_open ! k \<in> set (tl decl_open)"
    by (intro nth_mem) (simp add: decl_open_def)
  moreover have "tl decl_open ! k = decl_open ! n"
    using k by (simp add: decl_open_def)
  moreover have "CHR ''c'' \<notin> set (tl decl_open)"
    by (simp add: decl_open_def quote_def)
  ultimately show False using c by simp
qed

lemma decl_open_no_overlap:
  assumes "x \<noteq> []" and "prefix decl_open (x @ decl_open @ w)"
  shows "\<exists>x'. x = decl_open @ x'"
proof (cases "length x < 19")
  case True
  from assms(2) obtain z where z: "x @ decl_open @ w = decl_open @ z"
    by (auto simp: prefix_def)
  have "(x @ decl_open @ w) ! length x = CHR ''c''"
    by (simp add: nth_append decl_open_def)
  moreover have "(decl_open @ z) ! length x = decl_open ! length x"
    using True by (simp add: nth_append length_decl_open)
  ultimately have "decl_open ! length x = CHR ''c''" using z by simp
  with True have "length x = 0" by (rule decl_open_nth_c)
  with assms(1) show ?thesis by simp
next
  case False
  then have "length decl_open \<le> length x" by (simp add: length_decl_open)
  with assms(2) have "prefix decl_open x"
    by (metis prefix_append prefix_length_le prefix_order.dual_order.antisym
        prefix_def append_eq_append_conv_if append_take_drop_id)
  then show ?thesis by (auto simp: prefix_def)
qed

lemma dropWhile_decl_open: "dropWhile not_quote (decl_open @ w) = quote # w"
  by (simp add: decl_open_def not_quote_def quote_def)

lemma no_new_match:
  assumes x: "x \<noteq> []"
    and old: "decl_re (x @ decl_open @ q @ decl_close @ post) = None"
    and v: "\<not> prefix '';'' v"
  shows "decl_re (x @ decl_open @ v @ decl_close @ post) = None"
proof (cases "prefix decl_open (x @ decl_open @ v @ decl_close @ post)")
  case False
  then show ?thesis by (simp add: decl_re_eq)
next
  case True
  from decl_open_no_overlap [OF x True] obtain x' where x': "x = decl_open @ x'" by blast
  show ?thesis
  proof (cases "quote \<in> set x'")
    case True
    then obtain y z where yz: "x' = y @ quote # z" and y: "quote \<notin> set y"
      by (meson split_list_first)
    have dw: "dropWhile not_quote (x' @ w) = quote # z @ w" for w
      using y by (simp add: yz dropWhile_append3 not_quote_def dropWhile_append)
    have same: "prefix decl_close (quote # z @ decl_open @ w1) =
                prefix decl_close (quote # z @ decl_open @ w2)" for w1 w2
      by (cases z) (simp_all add: decl_close_def decl_open_def)
    from old have "\<not> prefix decl_close (quote # z @ decl_open @ q @ decl_close @ post)"
      by (simp add: decl_re_eq x' length_decl_open dw split: if_splits)
    then have "\<not> prefix decl_close (quote # z @ decl_open @ v @ decl_close @ post)"
      using same by blast
    then show ?thesis
      by (simp add: decl_re_eq x' length_decl_open dw)
  next
    case False
    then have "\<forall>c\<in>set x'. not_quote c" by (auto simp: not_quote_def)
    then have dw: "dropWhile not_quote (x' @ decl_open @ w) = quote # w" for w
      by (simp add: dropWhile_append2 dropWhile_decl_open)
    have "\<not> prefix decl_close (quote # v @ decl_close @ post)"
      using v by (cases v) (simp_all add: decl_close_def quote_def)
    then show ?thesis
      by (simp add: decl_re_eq x' length_decl_open dw)
  qed
qed

lemma str_replace_decl_again:
  assumes q: "quote \<notin> set v" and d: "CHR ''$'' \<notin> set v" and v: "\<not> prefix '';'' v"
  shows "str_replace decl_re (decl_open @ v @ decl_close)
           (str_replace decl_re (decl_open @ v @ decl_close) s)
         = str_replace decl_re (decl_open @ v @ decl_close) s"
proof (cases "rx_find decl_re [] s")
  case None
  then show ?thesis by (simp add: str_replace_def)
next
  case (Some t)
  obtain b mt a where t: "t = (b, mt, a)" by (cases t) auto
  let ?T = "decl_open @ v @ decl_close"
  have plain: "get_substitution m' b' a' ?T = ?T" for m' b' a'
    using d by (intro get_substitution_plain) (simp add: decl_open_def decl_close_def quote_def)
  from rx_find_SomeD [OF Some [unfolded t]] obtain x y where
    s: "s = x @ y" and b: "b = x" and y: "decl_re y = Some a"
    and none: "\<forall>j<length x. decl_re (drop j s) = None"
    by auto
  from y obtain q0 where y0: "y = decl_open @ q0 @ decl_close @ a"
    by (auto simp: decl_re_Some_iff)
  have r: "str_replace decl_re ?T s = x @ ?T @ a"
    by (simp add: str_replace_def Some t plain b)
  have new: "decl_re (?T @ a) = Some a"
    using q by (auto simp: decl_re_Some_iff)
  have "\<forall>j<length x. decl_re (drop j (x @ ?T @ a)) = None"
  proof (intro allI impI)
    fix j assume j: "j < length x"
    then have old: "decl_re (drop j x @ decl_open @ q0 @ decl_close @ a) = None"
      using none [rule_format, OF j] by (simp add: s y0)
    have ne: "drop j x \<noteq> []" using j by simp
    have "decl_re (drop j x @ decl_open @ v @ decl_close @ a) = None"
      by (rule no_new_match [OF ne old v])
    then show "decl_re (drop j (x @ ?T @ a)) = None" using j by simp
  qed
  from rx_find_append [OF this new, of "[]"]
  have "rx_find decl_re [] (x @ ?T @ a) = Some (x, ?T, a)" by simp
  then have "str_replace decl_re ?T (x @ ?T @ a) = x @ ?T @ a"
    by (simp add: str_replace_def plain)
  with r show ?thesis by simp
qed

section \<open>The event loop: auxiliary facts\<close>

lemma run_events_append:
  "run_events h k (evs @ evs') st = run_events h k evs' (run_events h k evs st)"
  by (induction evs arbitrary: st) auto

lemma fire_due_keeps:
  assumes "\<And>cb s. P (ready s) (outcome s) \<Longrightarrow> P (ready (k cb s)) (outcome (k cb s))"
  shows "P (ready st) (outcome st) \<Longrightarrow>
         P (ready (fire_due k t ts st)) (outcome (fire_due k t ts st))"
  by (induction ts arbitrary: st) (auto simp: assms)

lemma advance_keeps:
  assumes "\<And>cb s. P (ready s) (outcome s) \<Longrightarrow> P (ready (k cb s)) (outcome (k cb s))"
  shows "P (ready st) (outcome st) \<Longrightarrow>
         P (ready (advance k t st)) (outcome (advance k t st))"
  using fire_due_keeps [of P k st t "timers st", OF assms] by (simp add: advance_def)

lemma run_events_keeps:
  assumes k: "\<And>cb s. P (ready s) (outcome s) \<Longrightarrow> P (ready (k cb s)) (outcome (k cb s))"
    and h: "\<And>e s. P (ready s) (outcome s) \<Longrightarrow> P (ready (h e s)) (outcome (h e s))"
  shows "P (ready st) (outcome st) \<Longrightarrow>
         P (ready (run_events h k evs st)) (outcome (run_events h k evs st))"
proof (induction evs arbitrary: st)
  case Nil
  then show ?case by simp
next
  case (Cons x evs)
  obtain d e where x: "x = (d, e)" by (cases x) auto
  have "P (ready (advance k (clock st + d) st)) (outcome (advance k (clock st + d) st))"
    using Cons.prems k by (rule advance_keeps [rotated])
  then have "P (ready (h e (advance k (clock st + d) st)))
               (outcome (h e (advance k (clock st + d) st)))"
    by (rule h)
  from Cons.IH [OF this] show ?case by (simp add: x)
qed

lemma fold_timer_keeps:
  assumes "\<And>cb s. P (ready s) (outcome s) \<Longrightarrow> P (ready (k cb s)) (outcome (k cb s))"
  shows "P (ready st) (outcome st) \<Longrightarrow>
         P (ready (fold k cbs st)) (outcome (fold k cbs st))"
  by (induction cbs arbitrary: st) (auto simp: assms)

lemma drain_keeps:
  assumes "\<And>cb s. P (ready s) (outcome s) \<Longrightarrow> P (ready (k cb s)) (outcome (k cb s))"
  shows "P (ready st) (outcome st) \<Longrightarrow>
         P (ready (drain k st)) (outcome (drain k st))"
  using fold_timer_keeps [of P k "st\<lparr>timers := []\<rparr>" "map snd (timers st)", OF assms]
  by (simp add: drain_def)

text \<open>A settled promise stays as it is.\<close>

lemma resolve_settled: "p \<noteq> Pending \<Longrightarrow> resolve v p = p"
  by (cases p) auto

lemma reject_settled: "p \<noteq> Pending \<Longrightarrow> reject e p = p"
  by (cases p) auto

lemma ganache_event_settled:
  "outcome s \<noteq> Pending \<and> outcome s = p \<Longrightarrow>
   outcome (ganache_event e s) \<noteq> Pending \<and> outcome (ganache_event e s) = p"
  by (cases e) (auto simp: ganache_event_def set_timeout_def reject_settled)

lemma ganache_timer_settled:
  "outcome s \<noteq> Pending \<and> outcome s = p \<Longrightarrow>
   outcome (ganache_timer cb s) \<noteq> Pending \<and> outcome (ganache_timer cb s) = p"
  by (cases cb) (auto simp: ganache_timer_def reject_settled resolve_settled)

lemma server_event_settled:
  "outcome s \<noteq> Pending \<and> outcome s = p \<Longrightarrow>
   outcome (server_event e s) \<noteq> Pending \<and> outcome (server_event e s) = p"
  by (cases e) (auto simp: server_event_def reject_settled resolve_settled)

lemma server_timer_settled:
  "outcome s \<noteq> Pending \<and> outcome s = p \<Longrightarrow>
   outcome (server_timer cb s) \<noteq> Pending \<and> outcome (server_timer cb s) = p"
  by (cases cb) (auto simp: server_timer_def reject_settled)

lemma ganache_quiet_event:
  "\<not> emits ''Listening on'' e \<Longrightarrow> \<not> failing_close e \<Longrightarrow> ganache_event e st = st"
  by (cases e) (auto simp: ganache_event_def)

lemma server_quiet_event:
  "\<not> emits ''Server on port'' e \<Longrightarrow> \<not> failing_close e \<Longrightarrow> server_event e st = st"
  by (cases e) (auto simp: server_event_def)

lemma ganache_startup_timer:
  "\<not> ready s \<Longrightarrow> ganache_timer StartupTimer s = s\<lparr>outcome := reject StartupTimeout (outcome s)\<rparr>"
  by (simp add: ganache_timer_def)

lemma server_startup_timer:
  "\<not> ready s \<Longrightarrow> server_timer StartupTimer s = s\<lparr>outcome := reject StartupTimeout (outcome s)\<rparr>"
  by (simp add: server_timer_def)

lemma advance_waiting:
  assumes k: "\<And>s. \<not> ready s \<Longrightarrow> k StartupTimer s = s\<lparr>outcome := reject StartupTimeout (outcome s)\<rparr>"
    and w: "waiting_for limit st"
  shows "if t < limit then advance k t st = st\<lparr>clock := t\<rparr>
         else advance k t st = st\<lparr>outcome := Rejected StartupTimeout, timers := [], clock := t\<rparr>"
  using w by (auto simp: advance_def waiting_for_def k)

lemma advance_timed_out:
  "timed_out limit st \<Longrightarrow> advance k t st = st\<lparr>clock := t\<rparr>"
  by (simp add: advance_def timed_out_def)

lemma quiet_run:
  assumes k: "\<And>s. \<not> ready s \<Longrightarrow> k StartupTimer s = s\<lparr>outcome := reject StartupTimeout (outcome s)\<rparr>"
    and h: "\<And>e s. \<not> emits marker e \<Longrightarrow> \<not> failing_close e \<Longrightarrow> h e s = s"
  shows "quiet marker evs \<Longrightarrow> waiting_for limit st \<or> timed_out limit st \<Longrightarrow>
         clock (run_events h k evs st) = clock st + elapsed evs
         \<and> (if clock st + elapsed evs < limit then waiting_for limit (run_events h k evs st)
            else timed_out limit (run_events h k evs st))"
proof (induction evs arbitrary: st)
  case Nil
  then show ?case by (auto simp: elapsed_def waiting_for_def timed_out_def)
next
  case (Cons x evs)
  obtain d e where x: "x = (d, e)" by (cases x) auto
  from Cons.prems(1) have q: "\<not> emits marker e" "\<not> failing_close e" "quiet marker evs"
    by (auto simp: quiet_def x)
  let ?s = "h e (advance k (clock st + d) st)"
  have s: "?s = advance k (clock st + d) st" using q by (simp add: h)
  have "clock ?s = clock st + d \<and> (waiting_for limit ?s \<or> timed_out limit ?s)"
  proof (cases "waiting_for limit st")
    case True
    from advance_waiting [of k limit st "clock st + d", OF k True] True
    show ?thesis by (auto simp: s waiting_for_def timed_out_def split: if_splits)
  next
    case False
    with Cons.prems(2) have "timed_out limit st" by simp
    then show ?thesis by (auto simp: s advance_timed_out timed_out_def)
  qed
  then have c: "clock ?s = clock st + d" and w: "waiting_for limit ?s \<or> timed_out limit ?s"
    by auto
  from Cons.IH [OF q(3) w] show ?case
    by (simp add: x c elapsed_def add.assoc)
qed

lemma drain_quiet:
  assumes k: "\<And>s. \<not> ready s \<Longrightarrow> k StartupTimer s = s\<lparr>outcome := reject StartupTimeout (outcome s)\<rparr>"
  shows "waiting_for limit st \<or> timed_out limit st \<Longrightarrow> outcome (drain k st) = Rejected StartupTimeout"
  by (auto simp: drain_def waiting_for_def timed_out_def k)

lemma ganache_init_waiting: "waiting_for 30000 ganache_init" "clock ganache_init = 0"
  by (simp_all add: ganache_init_def waiting_for_def set_timeout_def)

lemma server_init_waiting: "waiting_for 15000 server_init" "clock server_init = 0"
  by (simp_all add: server_init_def waiting_for_def set_timeout_def)

lemma ganache_quiet_feed:
  assumes "quiet ''Listening on'' evs"
  shows "clock (ganache_feed evs) = elapsed evs"
    and "if elapsed evs < 30000 then waiting_for 30000 (ganache_feed evs)
         else timed_out 30000 (ganache_feed evs)"
  using quiet_run [of ganache_timer "''Listening on''" ganache_event evs 30000 ganache_init,
      OF ganache_startup_timer ganache_quiet_event assms] ganache_init_waiting
  by (simp_all add: ganache_feed_def)

lemma server_quiet_feed:
  assumes "quiet ''Server on port'' evs"
  shows "clock (server_feed evs) = elapsed evs"
    and "if elapsed evs < 15000 then waiting_for 15000 (server_feed evs)
         else timed_out 15000 (server_feed evs)"
  using quiet_run [of server_timer "''Server on port''" server_event evs 15000 server_init,
      OF server_startup_timer server_quiet_event assms] server_init_waiting
  by (simp_all add: server_feed_def)

lemma set_insert_timer: "set (insert_timer x ts) = insert x (set ts)"
  by (induction ts) auto

lemma ganache_fire_due_armed:
  "(outcome st = Pending \<longrightarrow> armed (ready st) ts) \<Longrightarrow>
   (outcome (fire_due ganache_timer t ts st) = Pending \<longrightarrow>
      armed (ready (fire_due ganache_timer t ts st)) (timers (fire_due ganache_timer t ts st)))"
proof (induction ts arbitrary: st)
  case Nil
  then show ?case by (simp add: armed_def)
next
  case (Cons x ts)
  obtain due cb where x: "x = (due, cb)" by (cases x) auto
  show ?case
  proof (cases "due \<le> t")
    case False
    with Cons.prems show ?thesis by (simp add: x)
  next
    case True
    have "outcome (ganache_timer cb st) = Pending \<longrightarrow> armed (ready (ganache_timer cb st)) ts"
      using Cons.prems
      by (cases cb; cases "outcome st")
         (auto simp: x armed_def ganache_timer_def split: if_splits)
    from Cons.IH [OF this] True show ?thesis by (simp add: x)
  qed
qed

lemma ganache_run_armed:
  "(outcome st = Pending \<longrightarrow> armed (ready st) (timers st)) \<Longrightarrow>
   (outcome (run_events ganache_event ganache_timer evs st) = Pending \<longrightarrow>
      armed (ready (run_events ganache_event ganache_timer evs st))
        (timers (run_events ganache_event ganache_timer evs st)))"
proof (induction evs arbitrary: st)
  case Nil
  then show ?case by simp
next
  case (Cons x evs)
  obtain d e where x: "x = (d, e)" by (cases x) auto
  let ?a = "advance ganache_timer (clock st + d) st"
  have a: "outcome ?a = Pending \<longrightarrow> armed (ready ?a) (timers ?a)"
    using ganache_fire_due_armed [OF Cons.prems, of "clock st + d"]
    by (simp add: advance_def)
  have "outcome (ganache_event e ?a) = Pending \<longrightarrow>
          armed (ready (ganache_event e ?a)) (timers (ganache_event e ?a))"
  proof (cases "outcome ?a = Pending")
    case True
    with a have "armed (ready ?a) (timers ?a)" by simp
    with True show ?thesis
      by (cases e) (auto simp: ganache_event_def set_timeout_def armed_def set_insert_timer)
  next
    case False
    then show ?thesis using ganache_event_settled [of ?a "outcome ?a" e] by simp
  qed
  from Cons.IH [OF this] show ?case by (simp add: x)
qed

lemma ganache_fold_armed:
  "(outcome st = Pending \<longrightarrow> armed (ready st) ts) \<Longrightarrow>
   outcome (fold ganache_timer (map snd ts) st) \<noteq> Pending"
proof (induction ts arbitrary: st)
  case Nil
  then show ?case by (simp add: armed_def)
next
  case (Cons x ts)
  obtain due cb where x: "x = (due, cb)" by (cases x) auto
  have "outcome (ganache_timer cb st) = Pending \<longrightarrow> armed (ready (ganache_timer cb st)) ts"
    using Cons.prems
    by (cases cb; cases "outcome st")
       (auto simp: x armed_def ganache_timer_def split: if_splits)
  from Cons.IH [OF this] show ?case by (simp add: x)
qed

lemma startGanache_settles: "startGanache evs \<noteq> Pending"
proof -
  have "outcome ganache_init = Pending \<longrightarrow> armed (ready ganache_init) (timers ganache_init)"
    by (simp add: ganache_init_def set_timeout_def armed_def)
  from ganache_run_armed [OF this, of evs]
  have "outcome (ganache_feed evs) = Pending \<longrightarrow>
          armed (ready (ganache_feed evs)) (timers (ganache_feed evs))"
    by (simp add: ganache_feed_def)
  then have "outcome ((ganache_feed evs)\<lparr>timers := []\<rparr>) = Pending \<longrightarrow>
          armed (ready ((ganache_feed evs)\<lparr>timers := []\<rparr>)) (timers (ganache_feed evs))"
    by simp
  from ganache_fold_armed [OF this] show ?thesis
    by (simp add: startGanache_def drain_def)
qed

lemma server_fire_due_armed:
  "(outcome st = Pending \<longrightarrow> s_armed (ready st) ts) \<Longrightarrow>
   (outcome (fire_due server_timer t ts st) = Pending \<longrightarrow>
      s_armed (ready (fire_due server_timer t ts st)) (timers (fire_due server_timer t ts st)))"
proof (induction ts arbitrary: st)
  case Nil
  then show ?case by (simp add: s_armed_def)
next
  case (Cons x ts)
  obtain due cb where x: "x = (due, cb)" by (cases x) auto
  show ?case
  proof (cases "due \<le> t")
    case False
    with Cons.prems show ?thesis by (simp add: x)
  next
    case True
    have "outcome (server_timer cb st) = Pending \<longrightarrow> s_armed (ready (server_timer cb st)) ts"
      using Cons.prems
      by (cases cb; cases "outcome st")
         (auto simp: x s_armed_def server_timer_def split: if_splits)
    from Cons.IH [OF this] True show ?thesis by (simp add: x)
  qed
qed

lemma server_run_armed:
  "(outcome st = Pending \<longrightarrow> s_armed (ready st) (timers st)) \<Longrightarrow>
   (outcome (run_events server_event server_timer evs st) = Pending \<longrightarrow>
      s_armed (ready (run_events server_event server_timer evs st))
        (timers (run_events server_event server_timer evs st)))"
proof (induction evs arbitrary: st)
  case Nil
  then show ?case by simp
next
  case (Cons x evs)
  obtain d e where x: "x = (d, e)" by (cases x) auto
  let ?a = "advance server_timer (clock st + d) st"
  have a: "outcome ?a = Pending \<longrightarrow> s_armed (ready ?a) (timers ?a)"
    using server_fire_due_armed [OF Cons.prems, of "clock st + d"]
    by (simp add: advance_def)
  have "outcome (server_event e ?a) = Pending \<longrightarrow>
          s_armed (ready (server_event e ?a)) (timers (server_event e ?a))"
  proof (cases "outcome ?a = Pending")
    case True
    with a have "s_armed (ready ?a) (timers ?a)" by simp
    with True show ?thesis
      by (cases e) (auto simp: server_event_def s_armed_def)
  next
    case False
    then show ?thesis using server_event_settled [of ?a "outcome ?a" e] by simp
  qed
  from Cons.IH [OF this] show ?case by (simp add: x)
qed

lemma server_fold_armed:
  "(outcome st = Pending \<longrightarrow> s_armed (ready st) ts) \<Longrightarrow>
   outcome (fold server_timer (map snd ts) st) \<noteq> Pending"
proof (induction ts arbitrary: st)
  case Nil
  then show ?case by (simp add: s_armed_def)
next
  case (Cons x ts)
  obtain due cb where x: "x = (due, cb)" by (cases x) auto
  have "outcome (server_timer cb st) = Pending \<longrightarrow> s_armed (ready (server_timer cb st)) ts"
    using Cons.prems
    by (cases cb; cases "outcome st")
       (auto simp: x s_armed_def server_timer_def split: if_splits)
  from Cons.IH [OF this] show ?case by (simp add: x)
qed

lemma startServer_settles: "startServer evs \<noteq> Pending"
proof -
  have "outcome server_init = Pending \<longrightarrow> s_armed (ready server_init) (timers server_init)"
    by (simp add: server_init_def set_timeout_def s_armed_def)
  from server_run_armed [OF this, of evs]
  have "outcome (server_feed evs) = Pending \<longrightarrow>
          s_armed (ready (server_feed evs)) (timers (server_feed evs))"
    by (simp add: server_feed_def)
  then have "outcome ((server_feed evs)\<lparr>timers := []\<rparr>) = Pending \<longrightarrow>
          s_armed (ready ((server_feed evs)\<lparr>timers := []\<rparr>)) (timers (server_feed evs))"
    by simp
  from server_fold_armed [OF this] show ?thesis
    by (simp add: startServer_def drain_def)
qed

lemma settled_final:
  assumes k: "\<And>cb s p. outcome s \<noteq> Pending \<and> outcome s = p \<Longrightarrow>
                outcome (k cb s) \<noteq> Pending \<and> outcome (k cb s) = p"
    and h: "\<And>e s p. outcome s \<noteq> Pending \<and> outcome s = p \<Longrightarrow>
                outcome (h e s) \<noteq> Pending \<and> outcome (h e s) = p"
    and st: "outcome st \<noteq> Pending"
  shows "outcome (drain k (run_events h k evs st)) = outcome st"
proof -
  let ?P = "\<lambda>(r::bool) q. q \<noteq> Pending \<and> q = outcome st"
  have "?P (ready st) (outcome st)" using st by simp
  then have "?P (ready (run_events h k evs st)) (outcome (run_events h k evs st))"
    by (rule run_events_keeps [where P = ?P, rotated 2]) (use k h in blast)+
  then have "?P (ready (drain k (run_events h k evs st)))
               (outcome (drain k (run_events h k evs st)))"
    by (rule drain_keeps [where P = ?P, rotated]) (use k in blast)
  then show ?thesis by simp
qed

lemma timeout_final:
  assumes k: "\<And>s. \<not> ready s \<Longrightarrow> k StartupTimer s = s\<lparr>outcome := reject StartupTimeout (outcome s)\<rparr>"
    and h: "\<And>e s. \<not> emits marker e \<Longrightarrow> \<not> failing_close e \<Longrightarrow> h e s = s"
    and ks: "\<And>cb s p. outcome s \<noteq> Pending \<and> outcome s = p \<Longrightarrow>
                outcome (k cb s) \<noteq> Pending \<and> outcome (k cb s) = p"
    and hs: "\<And>e s p. outcome s \<noteq> Pending \<and> outcome s = p \<Longrightarrow>
                outcome (h e s) \<noteq> Pending \<and> outcome (h e s) = p"
  shows "waiting_for limit st \<or> timed_out limit st \<Longrightarrow>
         quiet marker (before (limit - clock st) evs) \<Longrightarrow>
         outcome (drain k (run_events h k evs st)) = Rejected StartupTimeout"
proof (induction evs arbitrary: st)
  case Nil
  then show ?case using drain_quiet [of k limit st, OF k] by simp
next
  case (Cons x evs)
  obtain d e where x: "x = (d, e)" by (cases x) auto
  let ?a = "advance k (clock st + d) st"
  show ?case
  proof (cases "waiting_for limit st \<and> clock st + d < limit")
    case True
    then have w: "waiting_for limit st" and t: "clock st + d < limit" by auto
    from t have dl: "d < limit - clock st" by simp
    have ll: "limit - (clock st + d) = limit - clock st - d" by simp
    from Cons.prems(2) have q: "\<not> emits marker e" "\<not> failing_close e"
      and q': "quiet marker (before (limit - clock st - d) evs)"
      by (simp_all add: x quiet_def dl)
    from advance_waiting [of k limit st "clock st + d", OF k w] t
    have a: "?a = st\<lparr>clock := clock st + d\<rparr>" by simp
    have s: "h e ?a = st\<lparr>clock := clock st + d\<rparr>" using q a by (simp add: h)
    have "waiting_for limit (h e ?a)" using w t by (simp add: s waiting_for_def)
    then have "waiting_for limit (h e ?a) \<or> timed_out limit (h e ?a)" by simp
    moreover have "quiet marker (before (limit - clock (h e ?a)) evs)"
      using q' by (simp add: s)
    ultimately have "outcome (drain k (run_events h k evs (h e ?a))) = Rejected StartupTimeout"
      by (rule Cons.IH)
    then show ?thesis by (simp add: x)
  next
    case False
    have a: "outcome ?a = Rejected StartupTimeout"
    proof (cases "waiting_for limit st")
      case True
      with False have "\<not> clock st + d < limit" by simp
      with advance_waiting [of k limit st "clock st + d", OF k True] show ?thesis by simp
    next
      case False
      with Cons.prems(1) have "timed_out limit st" by simp
      then show ?thesis by (simp add: advance_timed_out) (simp add: timed_out_def)
    qed
    then have "outcome (h e ?a) \<noteq> Pending \<and> outcome (h e ?a) = Rejected StartupTimeout"
      using hs [of ?a "Rejected StartupTimeout" e] by simp
    then have ne: "outcome (h e ?a) \<noteq> Pending"
      and eq: "outcome (h e ?a) = Rejected StartupTimeout" by simp_all
    have "outcome (drain k (run_events h k evs (h e ?a))) = outcome (h e ?a)"
      by (rule settled_final [where k = k and h = h, OF ks hs ne])
    with eq show ?thesis by (simp add: x)
  qed
qed

lemma not_quiet_before:
  "\<not> quiet marker (before limit tr) \<Longrightarrow>
   \<exists>evs d e later. tr = evs @ (d, e) # later \<and> quiet marker evs \<and> elapsed evs + d < limit
     \<and> (emits marker e \<or> failing_close e)"
proof (induction tr arbitrary: limit)
  case Nil
  then show ?case by (simp add: quiet_def)
next
  case (Cons x tr)
  obtain d e where x: "x = (d, e)" by (cases x) auto
  from Cons.prems have d: "d < limit" by (auto simp: x quiet_def split: if_splits)
  show ?case
  proof (cases "emits marker e \<or> failing_close e")
    case True
    with d show ?thesis
      by (intro exI [of _ "[]"] exI [of _ d] exI [of _ e] exI [of _ tr])
         (simp add: x quiet_def elapsed_def)
  next
    case False
    with Cons.prems d have "\<not> quiet marker (before (limit - d) tr)"
      by (simp add: x quiet_def)
    from Cons.IH [OF this] obtain evs d' e' later where
      t: "tr = evs @ (d', e') # later" "quiet marker evs" "elapsed evs + d' < limit - d"
         "emits marker e' \<or> failing_close e'"
      by blast
    with False show ?thesis
      by (intro exI [of _ "(d, e) # evs"] exI [of _ d'] exI [of _ e'] exI [of _ later])
         (auto simp: x quiet_def elapsed_def)
  qed
qed

lemma before_append:
  "elapsed evs + d < limit \<Longrightarrow>
   before limit (evs @ (d, e) # later) = evs @ (d, e) # before (limit - elapsed evs - d) later"
proof (induction evs arbitrary: limit)
  case Nil
  then show ?case by (simp add: elapsed_def)
next
  case (Cons x evs)
  obtain d' e' where x: "x = (d', e')" by (cases x) auto
  from Cons.prems have "elapsed evs + d < limit - d'" "d' < limit"
    by (auto simp: x elapsed_def)
  with Cons.IH [of "limit - d'"] show ?case by (simp add: x elapsed_def)
qed

lemma ganache_split:
  "startGanache (evs @ (d, e) # later) =
     outcome (drain ganache_timer
       (run_events ganache_event ganache_timer later (ganache_event e (ganache_at evs d))))"
  by (simp add: startGanache_def ganache_feed_def ganache_at_def run_events_append)

lemma server_split:
  "startServer (evs @ (d, e) # later) =
     outcome (drain server_timer
       (run_events server_event server_timer later (server_event e (server_at evs d))))"
  by (simp add: startServer_def server_feed_def server_at_def run_events_append)

lemma ganache_settled_at:
  assumes "outcome (ganache_at evs d) \<noteq> Pending"
  shows "startGanache (evs @ (d, e) # later) = outcome (ganache_at evs d)"
proof -
  let ?s = "ganache_event e (ganache_at evs d)"
  from ganache_event_settled [of "ganache_at evs d" "outcome (ganache_at evs d)" e] assms
  have ne: "outcome ?s \<noteq> Pending" and eq: "outcome ?s = outcome (ganache_at evs d)"
    by simp_all
  have "outcome (drain ganache_timer (run_events ganache_event ganache_timer later ?s))
          = outcome ?s"
    by (rule settled_final [where k = ganache_timer and h = ganache_event,
          OF ganache_timer_settled ganache_event_settled ne])
  with eq show ?thesis by (simp add: ganache_split)
qed

lemma server_settled_at:
  assumes "outcome (server_at evs d) \<noteq> Pending"
  shows "startServer (evs @ (d, e) # later) = outcome (server_at evs d)"
proof -
  let ?s = "server_event e (server_at evs d)"
  from server_event_settled [of "server_at evs d" "outcome (server_at evs d)" e] assms
  have ne: "outcome ?s \<noteq> Pending" and eq: "outcome ?s = outcome (server_at evs d)"
    by simp_all
  have "outcome (drain server_timer (run_events server_event server_timer later ?s))
          = outcome ?s"
    by (rule settled_final [where k = server_timer and h = server_event,
          OF server_timer_settled server_event_settled ne])
  with eq show ?thesis by (simp add: server_split)
qed

text \<open>The state just before an event that follows a quiet trace, within the limit.\<close>

lemma ganache_at_quiet:
  assumes "quiet ''Listening on'' evs" and "elapsed evs + d < 30000"
  shows "waiting_for 30000 (ganache_at evs d)"
proof -
  from assms(2) have "elapsed evs < 30000" by simp
  with ganache_quiet_feed [OF assms(1)]
  have w: "waiting_for 30000 (ganache_feed evs)" and c: "clock (ganache_feed evs) = elapsed evs"
    by simp_all
  from advance_waiting [of ganache_timer 30000 "ganache_feed evs" "elapsed evs + d",
      OF ganache_startup_timer w] assms(2)
  have "ganache_at evs d = (ganache_feed evs)\<lparr>clock := elapsed evs + d\<rparr>"
    by (simp add: ganache_at_def c)
  with w assms(2) show ?thesis by (simp add: waiting_for_def)
qed

lemma server_at_quiet:
  assumes "quiet ''Server on port'' evs" and "elapsed evs + d < 15000"
  shows "waiting_for 15000 (server_at evs d)"
proof -
  from assms(2) have "elapsed evs < 15000" by simp
  with server_quiet_feed [OF assms(1)]
  have w: "waiting_for 15000 (server_feed evs)" and c: "clock (server_feed evs) = elapsed evs"
    by simp_all
  from advance_waiting [of server_timer 15000 "server_feed evs" "elapsed evs + d",
      OF server_startup_timer w] assms(2)
  have "server_at evs d = (server_feed evs)\<lparr>clock := elapsed evs + d\<rparr>"
    by (simp add: server_at_def c)
  with w assms(2) show ?thesis by (simp add: waiting_for_def)
qed

lemma ganache_exit_early:
  assumes "quiet ''Listening on'' evs" and "elapsed evs + d < 30000"
    and "code \<noteq> Some 0" and "code \<noteq> None"
  shows "startGanache (evs @ (d, Close code) # later) = Rejected (ProcessExitedEarly code)"
proof -
  let ?s = "ganache_event (Close code) (ganache_at evs d)"
  from ganache_at_quiet [OF assms(1,2)] have "outcome (ganache_at evs d) = Pending"
    by (simp add: waiting_for_def)
  with assms(3,4) have eq: "outcome ?s = Rejected (ProcessExitedEarly code)"
    by (simp add: ganache_event_def)
  then have ne: "outcome ?s \<noteq> Pending" by simp
  have "outcome (drain ganache_timer (run_events ganache_event ganache_timer later ?s))
          = outcome ?s"
    by (rule settled_final [where k = ganache_timer and h = ganache_event,
          OF ganache_timer_settled ganache_event_settled ne])
  with eq show ?thesis by (simp add: ganache_split)
qed

lemma server_exit_early:
  assumes "quiet ''Server on port'' evs" and "elapsed evs + d < 15000"
    and "code \<noteq> Some 0" and "code \<noteq> None"
  shows "startServer (evs @ (d, Close code) # later) = Rejected (ProcessExitedEarly code)"
proof -
  let ?s = "server_event (Close code) (server_at evs d)"
  from server_at_quiet [OF assms(1,2)] have "outcome (server_at evs d) = Pending"
    by (simp add: waiting_for_def)
  with assms(3,4) have eq: "outcome ?s = Rejected (ProcessExitedEarly code)"
    by (simp add: server_event_def)
  then have ne: "outcome ?s \<noteq> Pending" by simp
  have "outcome (drain server_timer (run_events server_event server_timer later ?s))
          = outcome ?s"
    by (rule settled_final [where k = server_timer and h = server_event,
          OF server_timer_settled server_event_settled ne])
  with eq show ?thesis by (simp add: server_split)
qed

text \<open>Once the flag is set without a timeout failure, no timeout failure follows.\<close>

lemma ganache_event_matched:
  "ready s \<and> outcome s \<noteq> Rejected StartupTimeout \<Longrightarrow>
   ready (ganache_event e s) \<and> outcome (ganache_event e s) \<noteq> Rejected StartupTimeout"
  by (cases e; cases "outcome s") (auto simp: ganache_event_def)

lemma ganache_timer_matched:
  "ready s \<and> outcome s \<noteq> Rejected StartupTimeout \<Longrightarrow>
   ready (ganache_timer cb s) \<and> outcome (ganache_timer cb s) \<noteq> Rejected StartupTimeout"
  by (cases cb; cases "outcome s") (auto simp: ganache_timer_def)

lemma server_event_matched:
  "ready s \<and> outcome s \<noteq> Rejected StartupTimeout \<Longrightarrow>
   ready (server_event e s) \<and> outcome (server_event e s) \<noteq> Rejected StartupTimeout"
  by (cases e; cases "outcome s") (auto simp: server_event_def)

lemma server_timer_matched:
  "ready s \<and> outcome s \<noteq> Rejected StartupTimeout \<Longrightarrow>
   ready (server_timer cb s) \<and> outcome (server_timer cb s) \<noteq> Rejected StartupTimeout"
  by (cases cb; cases "outcome s") (auto simp: server_timer_def)

lemma matched_final:
  assumes k: "\<And>cb s. ready s \<and> outcome s \<noteq> Rejected StartupTimeout \<Longrightarrow>
                ready (k cb s) \<and> outcome (k cb s) \<noteq> Rejected StartupTimeout"
    and h: "\<And>e s. ready s \<and> outcome s \<noteq> Rejected StartupTimeout \<Longrightarrow>
                ready (h e s) \<and> outcome (h e s) \<noteq> Rejected StartupTimeout"
    and st: "ready st \<and> outcome st \<noteq> Rejected StartupTimeout"
  shows "outcome (drain k (run_events h k evs st)) \<noteq> Rejected StartupTimeout"
proof -
  let ?P = "\<lambda>r q. r \<and> q \<noteq> Rejected StartupTimeout"
  have "?P (ready (run_events h k evs st)) (outcome (run_events h k evs st))"
    using st by (rule run_events_keeps [where P = ?P, rotated 2]) (use k h in blast)+
  then have "?P (ready (drain k (run_events h k evs st)))
               (outcome (drain k (run_events h k evs st)))"
    by (rule drain_keeps [where P = ?P, rotated]) (use k in blast)
  then show ?thesis by simp
qed

lemma ganache_match_early:
  assumes "quiet ''Listening on'' evs" and "elapsed evs + d < 30000"
    and "emits ''Listening on'' e"
  shows "startGanache (evs @ (d, e) # later) \<noteq> Rejected StartupTimeout"
proof -
  let ?s = "ganache_event e (ganache_at evs d)"
  from ganache_at_quiet [OF assms(1,2)]
  have "outcome (ganache_at evs d) = Pending" "\<not> ready (ganache_at evs d)"
    by (simp_all add: waiting_for_def)
  with assms(3) have "ready ?s \<and> outcome ?s \<noteq> Rejected StartupTimeout"
    by (cases e) (simp_all add: ganache_event_def set_timeout_def)
  then have m: "ready ?s \<and> outcome ?s \<noteq> Rejected StartupTimeout" .
  have "outcome (drain ganache_timer (run_events ganache_event ganache_timer later ?s)) \<noteq> Rejected StartupTimeout"
    by (rule matched_final [of ganache_timer ganache_event ?s later, OF ganache_timer_matched ganache_event_matched m])
  then show ?thesis by (simp add: ganache_split)
qed

lemma server_match_early:
  assumes "quiet ''Server on port'' evs" and "elapsed evs + d < 15000"
    and "emits ''Server on port'' e"
  shows "startServer (evs @ (d, e) # later) \<noteq> Rejected StartupTimeout"
proof -
  let ?s = "server_event e (server_at evs d)"
  from server_at_quiet [OF assms(1,2)]
  have "outcome (server_at evs d) = Pending" "\<not> ready (server_at evs d)"
    by (simp_all add: waiting_for_def)
  with assms(3) have "ready ?s \<and> outcome ?s \<noteq> Rejected StartupTimeout"
    by (cases e) (simp_all add: server_event_def)
  then have m: "ready ?s \<and> outcome ?s \<noteq> Rejected StartupTimeout" .
  have "outcome (drain server_timer (run_events server_event server_timer later ?s)) \<noteq> Rejected StartupTimeout"
    by (rule matched_final [of server_timer server_event ?s later, OF server_timer_matched server_event_matched m])
  then show ?thesis by (simp add: server_split)
qed

lemma quiet_before: "quiet marker tr \<Longrightarrow> quiet marker (before limit tr)"
  by (induction tr arbitrary: limit) (auto simp: quiet_def)

lemma failing_close_cases:
  "failing_close e \<Longrightarrow> \<exists>code. e = Close code \<and> code \<noteq> Some 0 \<and> code \<noteq> None"
  by (cases e) auto

lemma ganache_timeout_iff:
  "startGanache tr = Rejected StartupTimeout \<longleftrightarrow> quiet ''Listening on'' (before 30000 tr)"
proof
  assume q: "quiet ''Listening on'' (before 30000 tr)"
  have w: "waiting_for 30000 ganache_init \<or> timed_out 30000 ganache_init"
    using ganache_init_waiting(1) by simp
  have q': "quiet ''Listening on'' (before (30000 - clock ganache_init) tr)"
    using q by (simp add: ganache_init_waiting(2))
  have "outcome (drain ganache_timer (run_events ganache_event ganache_timer tr ganache_init))
          = Rejected StartupTimeout"
    by (rule timeout_final [where k = ganache_timer and h = ganache_event,
          OF ganache_startup_timer ganache_quiet_event ganache_timer_settled
             ganache_event_settled w q'])
  then show "startGanache tr = Rejected StartupTimeout"
    by (simp add: startGanache_def ganache_feed_def)
next
  assume t: "startGanache tr = Rejected StartupTimeout"
  show "quiet ''Listening on'' (before 30000 tr)"
  proof (rule ccontr)
    assume "\<not> quiet ''Listening on'' (before 30000 tr)"
    from not_quiet_before [OF this] obtain evs d e later where
      tr: "tr = evs @ (d, e) # later" and q: "quiet ''Listening on'' evs"
      and d: "elapsed evs + d < 30000"
      and e: "emits ''Listening on'' e \<or> failing_close e"
      by blast
    from e show False
    proof
      assume "emits ''Listening on'' e"
      from ganache_match_early [OF q d this, of later] t tr show False by simp
    next
      assume "failing_close e"
      then obtain code where c: "e = Close code" "code \<noteq> Some 0" "code \<noteq> None"
        using failing_close_cases by blast
      from ganache_exit_early [OF q d c(2,3), of later] t tr c(1) show False by simp
    qed
  qed
qed

lemma server_timeout_iff:
  "startServer tr = Rejected StartupTimeout \<longleftrightarrow> quiet ''Server on port'' (before 15000 tr)"
proof
  assume q: "quiet ''Server on port'' (before 15000 tr)"
  have w: "waiting_for 15000 server_init \<or> timed_out 15000 server_init"
    using server_init_waiting(1) by simp
  have q': "quiet ''Server on port'' (before (15000 - clock server_init) tr)"
    using q by (simp add: server_init_waiting(2))
  have "outcome (drain server_timer (run_events server_event server_timer tr server_init))
          = Rejected StartupTimeout"
    by (rule timeout_final [where k = server_timer and h = server_event,
          OF server_startup_timer server_quiet_event server_timer_settled
             server_event_settled w q'])
  then show "startServer tr = Rejected StartupTimeout"
    by (simp add: startServer_def server_feed_def)
next
  assume t: "startServer tr = Rejected StartupTimeout"
  show "quiet ''Server on port'' (before 15000 tr)"
  proof (rule ccontr)
    assume "\<not> quiet ''Server on port'' (before 15000 tr)"
    from not_quiet_before [OF this] obtain evs d e later where
      tr: "tr = evs @ (d, e) # later" and q: "quiet ''Server on port'' evs"
      and d: "elapsed evs + d < 15000"
      and e: "emits ''Server on port'' e \<or> failing_close e"
      by blast
    from e show False
    proof
      assume "emits ''Server on port'' e"
      from server_match_early [OF q d this, of later] t tr show False by simp
    next
      assume "failing_close e"
      then obtain code where c: "e = Close code" "code \<noteq> Some 0" "code \<noteq> None"
        using failing_close_cases by blast
      from server_exit_early [OF q d c(2,3), of later] t tr c(1) show False by simp
    qed
  qed
qed

lemma not_quiet_match:
  assumes "emits marker e" and "elapsed evs + d < limit"
  shows "\<not> quiet marker (before limit (evs @ (d, e) # later))"
  using assms by (simp add: before_append quiet_def)






lemmas step_eval =
  ganache_at_def server_at_def ganache_feed_def server_feed_def ganache_init_def
  server_init_def set_timeout_def advance_def ganache_event_def server_event_def
  ganache_timer_def server_timer_def startGanache_def startServer_def drain_def
  quiet_def elapsed_def

section \<open>Readiness steps: exit, timeout and match\<close>

text \<open>
  A process that closes with exit code 0 before its marker is not reported as an early
  exit: the close handler ignores the code, and the step fails only when its startup
  timer fires.
\<close>

theorem exit_code_zero_counterexample:
  "startGanache [(100, Close (Some 0))] = Rejected StartupTimeout
   \<and> startServer [(100, Close (Some 0))] = Rejected StartupTimeout"
  by (simp add: step_eval)

text \<open>
  Claim C4, as the code has it. Neither readiness step hangs, whatever its process
  emits. A close with an exit code other than 0 and \<^verbatim>\<open>null\<close>, arriving before the
  marker and before the timeout, fails the step with \<open>ProcessExitedEarly\<close>. A close with
  exit code 0 or \<^verbatim>\<open>null\<close> is ignored: without a marker the step then fails with
  \<open>StartupTimeout\<close> when the timeout elapses.
\<close>

theorem early_exit_outcome:
  "startGanache tr \<noteq> Pending \<and> startServer tr \<noteq> Pending
   \<and> (quiet ''Listening on'' evs \<and> elapsed evs + d < 30000 \<and> code \<noteq> Some 0 \<and> code \<noteq> None
        \<longrightarrow> startGanache (evs @ (d, Close code) # later) = Rejected (ProcessExitedEarly code))
   \<and> (quiet ''Server on port'' evs \<and> elapsed evs + d < 15000 \<and> code \<noteq> Some 0 \<and> code \<noteq> None
        \<longrightarrow> startServer (evs @ (d, Close code) # later) = Rejected (ProcessExitedEarly code))
   \<and> (quiet ''Listening on'' evs \<and> (code = Some 0 \<or> code = None) \<and> quiet ''Listening on'' later
        \<longrightarrow> startGanache (evs @ (d, Close code) # later) = Rejected StartupTimeout)
   \<and> (quiet ''Server on port'' evs \<and> (code = Some 0 \<or> code = None) \<and> quiet ''Server on port'' later
        \<longrightarrow> startServer (evs @ (d, Close code) # later) = Rejected StartupTimeout)"
proof -
  have g: "quiet ''Listening on'' (evs @ (d, Close code) # later)"
    if "quiet ''Listening on'' evs" "code = Some 0 \<or> code = None" "quiet ''Listening on'' later"
    using that by (auto simp: quiet_def)
  have s: "quiet ''Server on port'' (evs @ (d, Close code) # later)"
    if "quiet ''Server on port'' evs" "code = Some 0 \<or> code = None" "quiet ''Server on port'' later"
    using that by (auto simp: quiet_def)
  show ?thesis
    using startGanache_settles [of tr] startServer_settles [of tr]
      ganache_exit_early [of evs d code later] server_exit_early [of evs d code later]
      quiet_before [OF g, of 30000] quiet_before [OF s, of 15000]
    by (simp add: ganache_timeout_iff server_timeout_iff)
qed

theorem early_exit_outcome_witness:
  "startGanache [(100, Close (Some 0))] \<noteq> Pending
   \<and> startServer [(100, Close (Some 0))] \<noteq> Pending
   \<and> quiet ''Listening on'' [(50, Stderr ''starting'')]
   \<and> quiet ''Server on port'' [(50, Stderr ''starting'')]
   \<and> startGanache ([(50, Stderr ''starting'')] @ (70, Close (Some 1)) # [])
        = Rejected (ProcessExitedEarly (Some 1))
   \<and> startServer ([(50, Stderr ''starting'')] @ (70, Close (Some 1)) # [])
        = Rejected (ProcessExitedEarly (Some 1))
   \<and> startGanache ([(50, Stderr ''starting'')] @ (70, Close (Some 0)) # [])
        = Rejected StartupTimeout
   \<and> startServer ([(50, Stderr ''starting'')] @ (70, Close (Some 0)) # [])
        = Rejected StartupTimeout"
proof -
  have q: "quiet ''Listening on'' [(50, Stderr ''starting'')]"
    "quiet ''Server on port'' [(50, Stderr ''starting'')]"
    "quiet ''Listening on'' []" "quiet ''Server on port'' []"
    "elapsed [(50, Stderr ''starting'')] + 70 < 15000"
    by (simp_all add: quiet_def elapsed_def)
  show ?thesis
    using q
      early_exit_outcome [of "[(100, Close (Some 0))]" "[(50, Stderr ''starting'')]" 70
        "Some 1" "[]"]
      early_exit_outcome [of "[(100, Close (Some 0))]" "[(50, Stderr ''starting'')]" 70
        "Some 0" "[]"]
    by simp
qed

subsection \<open>A match that comes first\<close>

lemma ganache_event_ready_idle:
  "ready st \<Longrightarrow> \<not> failing_close e \<Longrightarrow> ganache_event e st = st"
  by (cases e) (auto simp: ganache_event_def)

lemma advance_settling:
  assumes "settling due st"
  shows "if t < due then settling due (advance ganache_timer t st)
           \<and> clock (advance ganache_timer t st) = t
         else outcome (advance ganache_timer t st) = Fulfilled ()"
proof -
  from assms have r: "ready st" and p: "outcome st = Pending" and c: "clock st < due"
    by (simp_all add: settling_def)
  from assms consider
    (a) "timers st = [(due, SettleTimer), (30000, StartupTimer)]"
    | (b) "timers st = [(30000, StartupTimer), (due, SettleTimer)]" "30000 \<le> due"
    | (c) "timers st = [(due, SettleTimer)]"
    by (auto simp: settling_def)
  then show ?thesis
  proof cases
    case a
    with r p c show ?thesis
      by (simp add: advance_def settling_def ganache_timer_def)
  next
    case b
    with r p c show ?thesis
      by (simp add: advance_def settling_def ganache_timer_def)
  next
    case c
    with r p \<open>clock st < due\<close> show ?thesis
      by (simp add: advance_def settling_def ganache_timer_def)
  qed
qed

lemma drain_settling:
  "settling due st \<Longrightarrow> outcome (drain ganache_timer st) = Fulfilled ()"
  by (auto simp: settling_def drain_def ganache_timer_def)

lemma settle_final:
  "settling due st \<Longrightarrow>
   list_all (\<lambda>(d, e). \<not> failing_close e) (before (due - clock st) evs) \<Longrightarrow>
   outcome (drain ganache_timer (run_events ganache_event ganache_timer evs st)) = Fulfilled ()"
proof (induction evs arbitrary: st)
  case Nil
  then show ?case by (simp add: drain_settling)
next
  case (Cons x evs)
  obtain d e where x: "x = (d, e)" by (cases x) auto
  let ?a = "advance ganache_timer (clock st + d) st"
  show ?case
  proof (cases "clock st + d < due")
    case True
    then have dl: "d < due - clock st" by simp
    from Cons.prems(2) have q: "\<not> failing_close e"
      and q': "list_all (\<lambda>(d, e). \<not> failing_close e) (before (due - clock st - d) evs)"
      by (simp_all add: x dl)
    from advance_settling [OF Cons.prems(1), of "clock st + d"] True
    have s: "settling due ?a" and c: "clock ?a = clock st + d" by simp_all
    from s have "ready ?a" by (simp add: settling_def)
    then have e: "ganache_event e ?a = ?a" using q by (rule ganache_event_ready_idle)
    have "list_all (\<lambda>(d, e). \<not> failing_close e) (before (due - clock ?a) evs)"
      using q' by (simp add: c)
    from Cons.IH [OF s this] show ?thesis by (simp add: x e)
  next
    case False
    from advance_settling [OF Cons.prems(1), of "clock st + d"] False
    have a: "outcome ?a = Fulfilled ()" by simp
    from ganache_event_settled [of ?a "Fulfilled ()" e] a
    have ne: "outcome (ganache_event e ?a) \<noteq> Pending"
      and eq: "outcome (ganache_event e ?a) = Fulfilled ()" by simp_all
    have "outcome (drain ganache_timer
            (run_events ganache_event ganache_timer evs (ganache_event e ?a)))
          = outcome (ganache_event e ?a)"
      by (rule settled_final [where k = ganache_timer and h = ganache_event,
            OF ganache_timer_settled ganache_event_settled ne])
    with eq show ?thesis by (simp add: x)
  qed
qed

lemma settle_window_run:
  "settling due st \<Longrightarrow> list_all (\<lambda>(d, e). \<not> failing_close e) evs \<Longrightarrow>
   clock st + elapsed evs < due \<Longrightarrow>
   settling due (run_events ganache_event ganache_timer evs st)
   \<and> clock (run_events ganache_event ganache_timer evs st) = clock st + elapsed evs"
proof (induction evs arbitrary: st)
  case Nil
  then show ?case by (simp add: elapsed_def)
next
  case (Cons x evs)
  obtain d e where x: "x = (d, e)" by (cases x) auto
  let ?a = "advance ganache_timer (clock st + d) st"
  from Cons.prems(3) have t: "clock st + d < due" and t': "clock st + d + elapsed evs < due"
    by (simp_all add: x elapsed_def)
  from Cons.prems(2) have q: "\<not> failing_close e"
    and q': "list_all (\<lambda>(d, e). \<not> failing_close e) evs"
    by (simp_all add: x)
  from advance_settling [OF Cons.prems(1), of "clock st + d"] t
  have s: "settling due ?a" and c: "clock ?a = clock st + d" by simp_all
  from s have "ready ?a" by (simp add: settling_def)
  then have e: "ganache_event e ?a = ?a" using q by (rule ganache_event_ready_idle)
  have "clock ?a + elapsed evs < due" using t' by (simp add: c)
  from Cons.IH [OF s q' this] show ?case
    by (simp add: x e c elapsed_def add.assoc)
qed

lemma ganache_at_quiet_clock:
  assumes "quiet ''Listening on'' evs" and "elapsed evs + d < 30000"
  shows "clock (ganache_at evs d) = elapsed evs + d"
proof -
  from assms(2) have "elapsed evs < 30000" by simp
  with ganache_quiet_feed [OF assms(1)]
  have w: "waiting_for 30000 (ganache_feed evs)" and c: "clock (ganache_feed evs) = elapsed evs"
    by simp_all
  from advance_waiting [of ganache_timer 30000 "ganache_feed evs" "elapsed evs + d",
      OF ganache_startup_timer w] assms(2)
  show ?thesis by (simp add: ganache_at_def c)
qed

lemma ganache_matched_settling:
  assumes "quiet ''Listening on'' evs" and "elapsed evs + d < 30000"
    and "emits ''Listening on'' e"
  shows "settling (elapsed evs + d + 2000) (ganache_event e (ganache_at evs d))"
    and "clock (ganache_event e (ganache_at evs d)) = elapsed evs + d"
proof -
  from ganache_at_quiet [OF assms(1,2)] ganache_at_quiet_clock [OF assms(1,2)]
  have w: "\<not> ready (ganache_at evs d)" "outcome (ganache_at evs d) = Pending"
    "timers (ganache_at evs d) = [(30000, StartupTimer)]"
    "clock (ganache_at evs d) = elapsed evs + d"
    by (simp_all add: waiting_for_def)
  from assms(3) obtain chunk where e: "e = Stdout chunk"
    and m: "str_includes chunk ''Listening on''"
    by (cases e) simp_all
  from w m show "settling (elapsed evs + d + 2000) (ganache_event e (ganache_at evs d))"
    by (simp add: e ganache_event_def set_timeout_def settling_def)
  from w m show "clock (ganache_event e (ganache_at evs d)) = elapsed evs + d"
    by (simp add: e ganache_event_def set_timeout_def)
qed

lemma ganache_match_first:
  assumes "quiet ''Listening on'' evs" and "elapsed evs + d < 30000"
    and "emits ''Listening on'' e"
    and "list_all (\<lambda>(d, e). \<not> failing_close e) (before 2000 later)"
  shows "startGanache (evs @ (d, e) # later) = Fulfilled ()"
proof -
  let ?s = "ganache_event e (ganache_at evs d)"
  note s = ganache_matched_settling [OF assms(1,2,3)]
  have "list_all (\<lambda>(d, e). \<not> failing_close e)
          (before (elapsed evs + d + 2000 - clock ?s) later)"
    using assms(4) by (simp add: s(2))
  from settle_final [OF s(1) this] show ?thesis by (simp add: ganache_split)
qed

lemma ganache_match_then_exit:
  assumes "quiet ''Listening on'' evs" and "elapsed evs + d < 30000"
    and "emits ''Listening on'' e"
    and "list_all (\<lambda>(d, e). \<not> failing_close e) win" and "elapsed win + d' < 2000"
    and "code \<noteq> Some 0" and "code \<noteq> None"
  shows "startGanache (evs @ (d, e) # win @ (d', Close code) # later)
           = Rejected (ProcessExitedEarly code)"
proof -
  let ?s = "ganache_event e (ganache_at evs d)"
  let ?due = "elapsed evs + d + 2000"
  let ?r = "run_events ganache_event ganache_timer win ?s"
  let ?a = "advance ganache_timer (clock ?r + d') ?r"
  let ?c = "ganache_event (Close code) ?a"
  note s = ganache_matched_settling [OF assms(1,2,3)]
  have "clock ?s + elapsed win < ?due" using assms(5) by (simp add: s(2))
  from settle_window_run [OF s(1) assms(4) this]
  have r: "settling ?due ?r" and rc: "clock ?r = elapsed evs + d + elapsed win"
    by (simp_all add: s(2))
  have "clock ?r + d' < ?due" using assms(5) by (simp add: rc)
  with advance_settling [OF r, of "clock ?r + d'"]
  have "settling ?due ?a" by simp
  then have "outcome ?a = Pending" by (simp add: settling_def)
  with assms(6,7) have eq: "outcome ?c = Rejected (ProcessExitedEarly code)"
    by (simp add: ganache_event_def)
  then have ne: "outcome ?c \<noteq> Pending" by simp
  have "outcome (drain ganache_timer (run_events ganache_event ganache_timer later ?c))
          = outcome ?c"
    by (rule settled_final [where k = ganache_timer and h = ganache_event,
          OF ganache_timer_settled ganache_event_settled ne])
  with eq show ?thesis
    by (simp add: startGanache_def ganache_feed_def ganache_at_def run_events_append)
qed

lemma server_match_first:
  assumes "quiet ''Server on port'' evs" and "elapsed evs + d < 15000"
    and "emits ''Server on port'' e"
  shows "startServer (evs @ (d, e) # later) = Fulfilled ()"
proof -
  let ?s = "server_event e (server_at evs d)"
  from server_at_quiet [OF assms(1,2)]
  have w: "outcome (server_at evs d) = Pending" "\<not> ready (server_at evs d)"
    by (simp_all add: waiting_for_def)
  from assms(3) obtain chunk where e: "e = Stdout chunk"
    and m: "str_includes chunk ''Server on port''"
    by (cases e) simp_all
  from w m have eq: "outcome ?s = Fulfilled ()" by (simp add: e server_event_def)
  then have ne: "outcome ?s \<noteq> Pending" by simp
  have "outcome (drain server_timer (run_events server_event server_timer later ?s))
          = outcome ?s"
    by (rule settled_final [where k = server_timer and h = server_event,
          OF server_timer_settled server_event_settled ne])
  with eq show ?thesis by (simp add: server_split)
qed

text \<open>
  The network process prints its marker and exits with code 1 five milliseconds
  later: the match came first, yet the step fails, because the match only arms the
  settle timer and the close handler rejects the promise that is still pending.
\<close>

theorem match_then_exit_counterexample:
  "startGanache [(10, Stdout ''Listening on 127.0.0.1:7545''), (5, Close (Some 1))]
     = Rejected (ProcessExitedEarly (Some 1))"
  by (simp add: step_eval)

text \<open>
  Claim C8, as the code has it. A readiness step fails with \<open>StartupTimeout\<close> exactly
  when neither its marker nor a failing close arrives before the timeout (30000 ms for
  the network, 15000 ms for the server). Once the marker has been seen before the
  timeout, the startup timer never produces a failure. The first settlement of the
  promise is the outcome of the step: whatever arrives after it changes nothing. A
  match that comes first resolves the server step at once. It resolves the network
  step 2000 ms later: the step succeeds when no failing close arrives within these
  2000 ms, and a failing close within them fails it with \<open>ProcessExitedEarly\<close>.
\<close>

theorem startup_timeout_race:
  "(startGanache tr = Rejected StartupTimeout \<longleftrightarrow> quiet ''Listening on'' (before 30000 tr))
   \<and> (startServer tr = Rejected StartupTimeout \<longleftrightarrow> quiet ''Server on port'' (before 15000 tr))
   \<and> (emits ''Listening on'' e1 \<and> elapsed evs1 + d1 < 30000
        \<longrightarrow> startGanache (evs1 @ (d1, e1) # later1) \<noteq> Rejected StartupTimeout)
   \<and> (emits ''Server on port'' e2 \<and> elapsed evs2 + d2 < 15000
        \<longrightarrow> startServer (evs2 @ (d2, e2) # later2) \<noteq> Rejected StartupTimeout)
   \<and> (outcome (ganache_at evs3 d3) \<noteq> Pending
        \<longrightarrow> startGanache (evs3 @ (d3, e3) # later3) = outcome (ganache_at evs3 d3))
   \<and> (outcome (server_at evs4 d4) \<noteq> Pending
        \<longrightarrow> startServer (evs4 @ (d4, e4) # later4) = outcome (server_at evs4 d4))
   \<and> (quiet ''Server on port'' evs5 \<and> emits ''Server on port'' e5 \<and> elapsed evs5 + d5 < 15000
        \<longrightarrow> startServer (evs5 @ (d5, e5) # later5) = Fulfilled ())
   \<and> (quiet ''Listening on'' evs6 \<and> emits ''Listening on'' e6 \<and> elapsed evs6 + d6 < 30000
        \<and> list_all (\<lambda>(d, e). \<not> failing_close e) (before 2000 later6)
        \<longrightarrow> startGanache (evs6 @ (d6, e6) # later6) = Fulfilled ())
   \<and> (quiet ''Listening on'' evs7 \<and> emits ''Listening on'' e7 \<and> elapsed evs7 + d7 < 30000
        \<and> list_all (\<lambda>(d, e). \<not> failing_close e) win \<and> elapsed win + d8 < 2000
        \<and> code \<noteq> Some 0 \<and> code \<noteq> None
        \<longrightarrow> startGanache (evs7 @ (d7, e7) # win @ (d8, Close code) # later7)
              = Rejected (ProcessExitedEarly code))"
proof -
  have c1: "startGanache tr = Rejected StartupTimeout
      \<longleftrightarrow> quiet ''Listening on'' (before 30000 tr)"
    by (rule ganache_timeout_iff)
  have c2: "startServer tr = Rejected StartupTimeout
      \<longleftrightarrow> quiet ''Server on port'' (before 15000 tr)"
    by (rule server_timeout_iff)
  have c3: "emits ''Listening on'' e1 \<and> elapsed evs1 + d1 < 30000
        \<longrightarrow> startGanache (evs1 @ (d1, e1) # later1) \<noteq> Rejected StartupTimeout"
    using not_quiet_match [of "''Listening on''" e1 evs1 d1 30000 later1]
    by (simp add: ganache_timeout_iff)
  have c4: "emits ''Server on port'' e2 \<and> elapsed evs2 + d2 < 15000
        \<longrightarrow> startServer (evs2 @ (d2, e2) # later2) \<noteq> Rejected StartupTimeout"
    using not_quiet_match [of "''Server on port''" e2 evs2 d2 15000 later2]
    by (simp add: server_timeout_iff)
  have c5: "outcome (ganache_at evs3 d3) \<noteq> Pending
        \<longrightarrow> startGanache (evs3 @ (d3, e3) # later3) = outcome (ganache_at evs3 d3)"
    using ganache_settled_at [of evs3 d3 e3 later3] by simp
  have c6: "outcome (server_at evs4 d4) \<noteq> Pending
        \<longrightarrow> startServer (evs4 @ (d4, e4) # later4) = outcome (server_at evs4 d4)"
    using server_settled_at [of evs4 d4 e4 later4] by simp
  have c7: "quiet ''Server on port'' evs5 \<and> emits ''Server on port'' e5
        \<and> elapsed evs5 + d5 < 15000
        \<longrightarrow> startServer (evs5 @ (d5, e5) # later5) = Fulfilled ()"
    using server_match_first [of evs5 d5 e5 later5] by simp
  have c8: "quiet ''Listening on'' evs6 \<and> emits ''Listening on'' e6
        \<and> elapsed evs6 + d6 < 30000
        \<and> list_all (\<lambda>(d, e). \<not> failing_close e) (before 2000 later6)
        \<longrightarrow> startGanache (evs6 @ (d6, e6) # later6) = Fulfilled ()"
    using ganache_match_first [of evs6 d6 e6 later6] by simp
  have c9: "quiet ''Listening on'' evs7 \<and> emits ''Listening on'' e7
        \<and> elapsed evs7 + d7 < 30000
        \<and> list_all (\<lambda>(d, e). \<not> failing_close e) win \<and> elapsed win + d8 < 2000
        \<and> code \<noteq> Some 0 \<and> code \<noteq> None
        \<longrightarrow> startGanache (evs7 @ (d7, e7) # win @ (d8, Close code) # later7)
              = Rejected (ProcessExitedEarly code)"
    using ganache_match_then_exit [of evs7 d7 e7 win d8 code later7] by simp
  show ?thesis by (rule conjI c1 c2 c3 c4 c5 c6 c7 c8 c9)+
qed

theorem startup_timeout_race_witness:
  "startGanache [(40000, Stdout ''Listening on 127.0.0.1:7545'')] = Rejected StartupTimeout
   \<and> startServer [(40000, Stdout ''Server on port 5000'')] = Rejected StartupTimeout
   \<and> emits ''Listening on'' (Stdout ''Listening on 127.0.0.1:7545'')
   \<and> startGanache ([] @ (29000, Stdout ''Listening on 127.0.0.1:7545'') # [])
        \<noteq> Rejected StartupTimeout
   \<and> emits ''Server on port'' (Stdout ''Server on port 5000'')
   \<and> startServer ([] @ (14000, Stdout ''Server on port 5000'') # [])
        \<noteq> Rejected StartupTimeout
   \<and> outcome (ganache_at [(29000, Stdout ''Listening on 127.0.0.1:7545'')] 2000) = Fulfilled ()
   \<and> startGanache ([(29000, Stdout ''Listening on 127.0.0.1:7545'')] @ (2000, Close (Some 1)) # [])
        = Fulfilled ()
   \<and> outcome (server_at [(14000, Stdout ''Server on port 5000'')] 1000) = Fulfilled ()
   \<and> startServer ([(14000, Stdout ''Server on port 5000'')] @ (1000, Close (Some 1)) # [])
        = Fulfilled ()
   \<and> startServer ([] @ (14000, Stdout ''Server on port 5000'') # [(10, Close (Some 1))])
        = Fulfilled ()
   \<and> startGanache ([] @ (29000, Stdout ''Listening on 127.0.0.1:7545'')
          # [(1500, Stderr ''warning''), (500, Close (Some 1))])
        = Fulfilled ()
   \<and> startGanache ([] @ (10, Stdout ''Listening on 127.0.0.1:7545'')
          # [(3, Stderr ''warning'')] @ (2, Close (Some 1)) # [])
        = Rejected (ProcessExitedEarly (Some 1))"
proof -
  let ?G = "Stdout ''Listening on 127.0.0.1:7545''"
  let ?S = "Stdout ''Server on port 5000''"
  have eg: "emits ''Listening on'' ?G" and es: "emits ''Server on port'' ?S"
    by simp_all
  have qg: "quiet ''Listening on'' (before 30000 [(40000, ?G)])"
    and qs: "quiet ''Server on port'' (before 15000 [(40000, ?S)])"
    and q0: "quiet ''Listening on'' []" "quiet ''Server on port'' []"
    by (simp_all add: quiet_def)
  have t: "elapsed [] + 29000 < (30000::nat)" "elapsed [] + 14000 < (15000::nat)"
    "elapsed [] + 10 < (30000::nat)" "elapsed [(3, Stderr ''warning'')] + 2 < (2000::nat)"
    by (simp_all add: elapsed_def)
  have w: "list_all (\<lambda>(d, e). \<not> failing_close e)
             (before 2000 [(1500, Stderr ''warning''), (500, Close (Some 1))])"
    "list_all (\<lambda>(d, e). \<not> failing_close e) [(3 :: nat, Stderr ''warning'')]"
    by simp_all
  have g: "outcome (ganache_at [(29000, ?G)] 2000) = Fulfilled ()"
    by (simp add: step_eval)
  have s: "outcome (server_at [(14000, ?S)] 1000) = Fulfilled ()"
    by (simp add: step_eval)
  note T = startup_timeout_race [where tr = "[(40000, ?G)]"
      and ?e1.0 = ?G and ?evs1.0 = "[]" and ?d1.0 = 29000 and ?later1.0 = "[]"
      and ?e2.0 = ?S and ?evs2.0 = "[]" and ?d2.0 = 14000 and ?later2.0 = "[]"
      and ?evs3.0 = "[(29000, ?G)]" and ?d3.0 = 2000 and ?e3.0 = "Close (Some 1)"
      and ?later3.0 = "[]"
      and ?evs4.0 = "[(14000, ?S)]" and ?d4.0 = 1000 and ?e4.0 = "Close (Some 1)"
      and ?later4.0 = "[]"
      and ?evs5.0 = "[]" and ?e5.0 = ?S and ?d5.0 = 14000 and ?later5.0 = "[(10, Close (Some 1))]"
      and ?evs6.0 = "[]" and ?e6.0 = ?G and ?d6.0 = 29000
      and ?later6.0 = "[(1500, Stderr ''warning''), (500, Close (Some 1))]"
      and ?evs7.0 = "[]" and ?e7.0 = ?G and ?d7.0 = 10 and win = "[(3, Stderr ''warning'')]"
      and ?d8.0 = 2 and code = "Some 1" and ?later7.0 = "[]"]
  note T2 = startup_timeout_race [where tr = "[(40000, ?S)]"]
  show ?thesis
    using eg es qg qs q0 t w g s T T2 [THEN conjunct2, THEN conjunct1]
    by simp
qed

section \<open>A late exit of a ready process\<close>





section \<open>The configuration patch\<close>

lemmas patch_eval =
  updateServerConfig_def str_replace_def decl_re_def decl_open_def decl_close_def quote_def
  not_quote_def

text \<open>
  An artifact without the declaration is written back as it is, and the patch reports
  success.
\<close>

theorem absent_declaration_counterexample:
  "rx_find decl_re [] ''module.exports = {};'' = None
   \<and> updateServerConfig ''5777'' (Some ''module.exports = {};'') = Inr ''module.exports = {};''"
  by (simp add: patch_eval)

text \<open>
  Claim C5, as the code has it. For every artifact whose text does not contain the
  declaration \<^verbatim>\<open>const networkId = '...';\<close>, the patch succeeds and writes the artifact
  back unchanged; the code has no error for a missing pattern.
\<close>

theorem absent_declaration_written_back:
  "(\<nexists>x q r. content = x @ decl_open @ q @ decl_close @ r \<and> quote \<notin> set q) \<Longrightarrow>
   updateServerConfig netId (Some content) = Inr content"
proof -
  assume "\<nexists>x q r. content = x @ decl_open @ q @ decl_close @ r \<and> quote \<notin> set q"
  with decl_present_iff [of "[]" content] have "rx_find decl_re [] content = None"
    by blast
  then show ?thesis by (simp add: updateServerConfig_def str_replace_def)
qed

theorem absent_declaration_written_back_witness:
  "(\<nexists>x q r. ''const port = 5000;'' = x @ decl_open @ q @ decl_close @ r \<and> quote \<notin> set q)
   \<and> updateServerConfig ''5777'' (Some ''const port = 5000;'') = Inr ''const port = 5000;''"
proof -
  have "rx_find decl_re [] ''const port = 5000;'' = None"
    by (simp add: patch_eval)
  then have h: "\<nexists>x q r. ''const port = 5000;'' = x @ decl_open @ q @ decl_close @ r
      \<and> quote \<notin> set q"
    using decl_present_iff [of "[]" "''const port = 5000;''"] by simp
  from absent_declaration_written_back [OF h, of "''5777''"] h show ?thesis by blast
qed

text \<open>
  Patching twice with a value that closes the declaration itself: the second patch
  finds the declaration that the first one wrote and grows the text again.
\<close>

theorem patch_twice_counterexample:
  "updateServerConfig decl_close (Some (decl_open @ ''1'' @ decl_close))
     = Inr (decl_open @ decl_close @ decl_close)
   \<and> updateServerConfig decl_close (Some (decl_open @ decl_close @ decl_close))
     = Inr (decl_open @ decl_close @ decl_close @ decl_close)
   \<and> decl_open @ decl_close @ decl_close \<noteq> decl_open @ decl_close @ decl_close @ decl_close"
  by (simp add: patch_eval)

text \<open>
  Claim C7, as the code has it. For every artifact and every value that contains no
  single quote and no dollar sign and does not begin with a semicolon (every string of
  decimal digits is such a value, and the pipeline passes nothing else), patching the
  patched artifact again with the same value yields the same text.
\<close>

theorem config_patch_idempotent:
  "quote \<notin> set v \<Longrightarrow> CHR ''$'' \<notin> set v \<Longrightarrow> \<not> prefix '';'' v \<Longrightarrow>
   updateServerConfig v (Some content) = Inr once \<Longrightarrow>
   updateServerConfig v (Some once) = Inr once"
  using str_replace_decl_again [of v content]
  by (auto simp: updateServerConfig_def)

theorem config_patch_idempotent_witness:
  "quote \<notin> set ''5777'' \<and> CHR ''$'' \<notin> set ''5777'' \<and> \<not> prefix '';'' ''5777''
   \<and> updateServerConfig ''5777'' (Some (''// id'' @ decl_open @ decl_close @ ''app.listen();''))
       = Inr (''// id'' @ decl_open @ ''5777'' @ decl_close @ ''app.listen();'')
   \<and> updateServerConfig ''5777''
        (Some (''// id'' @ decl_open @ ''5777'' @ decl_close @ ''app.listen();''))
       = Inr (''// id'' @ decl_open @ ''5777'' @ decl_close @ ''app.listen();'')"
proof -
  have h: "quote \<notin> set ''5777''" "CHR ''$'' \<notin> set ''5777''" "\<not> prefix '';'' ''5777''"
    by (simp_all add: quote_def)
  have p: "updateServerConfig ''5777''
             (Some (''// id'' @ decl_open @ decl_close @ ''app.listen();''))
           = Inr (''// id'' @ decl_open @ ''5777'' @ decl_close @ ''app.listen();'')"
    by (simp add: patch_eval)
  from config_patch_idempotent [OF h p] h p show ?thesis by simp
qed

section \<open>The deployment step\<close>

lemma deploy_event_unmatched: "unmatched e \<Longrightarrow> deploy_event e st = st"
  by (cases e) (auto simp: deploy_event_def)

lemma deploy_fold_unmatched:
  "list_all (\<lambda>(d, e). unmatched e) evs \<Longrightarrow> fold deploy_event (map snd evs) st = st"
  by (induction evs arbitrary: st) (auto simp: deploy_event_unmatched)

lemma deploy_event_settled:
  "deployed st \<noteq> Pending \<Longrightarrow> deployed (deploy_event e st) = deployed st"
  by (cases e; cases "deployed st")
     (auto simp: deploy_event_def Let_def split: option.splits)

lemma deploy_fold_settled:
  "deployed st \<noteq> Pending \<Longrightarrow> deployed (fold deploy_event es st) = deployed st"
  by (induction es arbitrary: st) (auto simp: deploy_event_settled)

lemma deploy_without_match:
  assumes "list_all (\<lambda>(d, e). unmatched e) evs"
  shows "deployContract (evs @ (d, Close (Some 0)) # later) = Fulfilled ([], [])"
proof -
  let ?s = "deploy_event (Close (Some 0)) deploy_init"
  have s: "deployed ?s = Fulfilled ([], [])"
    by (simp add: deploy_event_def deploy_init_def)
  then have "deployed (fold deploy_event (map snd later) ?s) = Fulfilled ([], [])"
    using deploy_fold_settled [of ?s "map snd later"] by simp
  then show ?thesis
    by (simp add: deployContract_def deploy_feed_def deploy_fold_unmatched [OF assms])
qed

lemma patch_empty:
  assumes "\<exists>x q r. content = x @ decl_open @ q @ decl_close @ r \<and> quote \<notin> set q"
  shows "\<exists>x q r. content = x @ decl_open @ q @ decl_close @ r \<and> quote \<notin> set q
           \<and> updateServerConfig [] (Some content) = Inr (x @ decl_open @ decl_close @ r)"
proof -
  from assms decl_present_iff [of "[]" content]
  obtain b mt a where f: "rx_find decl_re [] content = Some (b, mt, a)" by auto
  from rx_find_SomeD [OF f] obtain y where
    c: "content = b @ y" and y: "decl_re y = Some a"
    by auto
  from y obtain q where q: "y = decl_open @ q @ decl_close @ a" "quote \<notin> set q"
    by (auto simp: decl_re_Some_iff)
  have "get_substitution mt b a (decl_open @ [] @ decl_close) = decl_open @ [] @ decl_close"
    by (rule get_substitution_plain) (simp add: decl_open_def decl_close_def quote_def)
  then have "updateServerConfig [] (Some content) = Inr (b @ decl_open @ decl_close @ a)"
    by (simp add: updateServerConfig_def str_replace_def f)
  with c q show ?thesis by blast
qed

lemma main_written:
  assumes "startGanache (ganache_output w) = Fulfilled ()"
    and "deployContract (migrate_output w) = Fulfilled (address, netId)"
    and "updateServerConfig netId (server_index_js w) = Inr text"
  shows "written (main w) = Some text"
  using assms
  by (simp add: main_def Let_def main_catch_def waiting_def cleanup_def
      split: promise.splits sum.splits prod.splits)

text \<open>
  Claim C9. A migration that exits with code 0 after output in which neither pattern
  matched in any chunk resolves the deployment step with the empty string for the
  address and for the network identifier. The patch of the server file with the empty
  identifier then succeeds: where the file has a declaration, one is rewritten to
  \<^verbatim>\<open>const networkId = '';\<close>, and that text is what the run writes.
\<close>

theorem deploy_without_match_patches_empty:
  "(list_all (\<lambda>(d, e). unmatched e) evs \<longrightarrow>
      deployContract (evs @ (d, Close (Some 0)) # later) = Fulfilled ([], []))
   \<and> ((\<exists>x q r. content = x @ decl_open @ q @ decl_close @ r \<and> quote \<notin> set q) \<longrightarrow>
      (\<exists>x q r. content = x @ decl_open @ q @ decl_close @ r \<and> quote \<notin> set q
         \<and> updateServerConfig [] (Some content) = Inr (x @ decl_open @ decl_close @ r)))
   \<and> (startGanache (ganache_output w) = Fulfilled ()
       \<and> migrate_output w = evs @ (d, Close (Some 0)) # later
       \<and> list_all (\<lambda>(d, e). unmatched e) evs
       \<and> server_index_js w = Some content
       \<and> (\<exists>x q r. content = x @ decl_open @ q @ decl_close @ r \<and> quote \<notin> set q) \<longrightarrow>
      (\<exists>x q r. content = x @ decl_open @ q @ decl_close @ r \<and> quote \<notin> set q
         \<and> written (main w) = Some (x @ decl_open @ decl_close @ r)))"
proof (intro conjI impI)
  assume "list_all (\<lambda>(d, e). unmatched e) evs"
  then show "deployContract (evs @ (d, Close (Some 0)) # later) = Fulfilled ([], [])"
    by (rule deploy_without_match)
next
  assume "\<exists>x q r. content = x @ decl_open @ q @ decl_close @ r \<and> quote \<notin> set q"
  then show "\<exists>x q r. content = x @ decl_open @ q @ decl_close @ r \<and> quote \<notin> set q
         \<and> updateServerConfig [] (Some content) = Inr (x @ decl_open @ decl_close @ r)"
    by (rule patch_empty)
next
  assume a: "startGanache (ganache_output w) = Fulfilled ()
       \<and> migrate_output w = evs @ (d, Close (Some 0)) # later
       \<and> list_all (\<lambda>(d, e). unmatched e) evs
       \<and> server_index_js w = Some content
       \<and> (\<exists>x q r. content = x @ decl_open @ q @ decl_close @ r \<and> quote \<notin> set q)"
  then have dep: "deployContract (migrate_output w) = Fulfilled ([], [])"
    using deploy_without_match [of evs d later] by simp
  from a patch_empty [of content] obtain x q r where
    p: "content = x @ decl_open @ q @ decl_close @ r" "quote \<notin> set q"
       "updateServerConfig [] (Some content) = Inr (x @ decl_open @ decl_close @ r)"
    by blast
  from a p(3) have "updateServerConfig [] (server_index_js w)
      = Inr (x @ decl_open @ decl_close @ r)" by simp
  from main_written [OF _ dep this] a
  have "written (main w) = Some (x @ decl_open @ decl_close @ r)" by simp
  with p show "\<exists>x q r. content = x @ decl_open @ q @ decl_close @ r \<and> quote \<notin> set q
         \<and> written (main w) = Some (x @ decl_open @ decl_close @ r)"
    by blast
qed

theorem deploy_without_match_patches_empty_witness:
  "list_all (\<lambda>(d, e). unmatched e) [(900 :: nat, Stdout ''Compiling your contracts...'')]
   \<and> deployContract ([(900, Stdout ''Compiling your contracts...'')] @ (2500, Close (Some 0)) # [])
       = Fulfilled ([], [])
   \<and> (\<exists>x q r. decl_open @ ''5777'' @ decl_close = x @ decl_open @ q @ decl_close @ r
         \<and> quote \<notin> set q
         \<and> updateServerConfig [] (Some (decl_open @ ''5777'' @ decl_close))
             = Inr (x @ decl_open @ decl_close @ r))
   \<and> startGanache (ganache_output scenario) = Fulfilled ()
   \<and> (\<exists>x q r. decl_open @ ''5777'' @ decl_close = x @ decl_open @ q @ decl_close @ r
         \<and> quote \<notin> set q
         \<and> written (main (scenario
              \<lparr>migrate_output :=
                 [(900, Stdout ''Compiling your contracts...'')] @ (2500, Close (Some 0)) # [],
               server_index_js := Some (decl_open @ ''5777'' @ decl_close)\<rparr>))
             = Some (x @ decl_open @ decl_close @ r))"
proof -
  let ?E = "[(900 :: nat, Stdout ''Compiling your contracts...'')]"
  let ?C = "decl_open @ ''5777'' @ decl_close"
  let ?W = "scenario\<lparr>migrate_output := ?E @ (2500, Close (Some 0)) # [],
              server_index_js := Some ?C\<rparr>"
  have u: "list_all (\<lambda>(d, e). unmatched e) ?E"
    by (simp add: address_re_def network_re_def)
  have "?C = [] @ decl_open @ ''5777'' @ decl_close @ [] \<and> quote \<notin> set ''5777''"
    by (simp add: quote_def)
  then have c: "\<exists>x q r. ?C = x @ decl_open @ q @ decl_close @ r \<and> quote \<notin> set q"
    by blast
  have g: "startGanache (ganache_output ?W) = Fulfilled ()"
    by (simp add: scenario_def step_eval)
  have g': "startGanache (ganache_output scenario) = Fulfilled ()"
    using g by simp
  have m: "migrate_output ?W = ?E @ (2500, Close (Some 0)) # []"
    and f: "server_index_js ?W = Some ?C"
    by simp_all
  from deploy_without_match_patches_empty [of ?E 2500 "[]" ?C ?W] u c g m f g'
  show ?thesis by simp
qed

section \<open>Matching is done chunk by chunk\<close>

lemma str_includes_sublist: "str_includes s m = sublist m s"
  by (induction s) (auto simp: sublist_Cons_right)

lemma str_includes_concat:
  assumes "c \<in> set chunks" and "str_includes c marker"
  shows "str_includes (concat chunks) marker"
proof -
  from assms(1) obtain ys zs where "chunks = ys @ c # zs" by (meson split_list)
  then have "concat chunks = concat ys @ c @ concat zs" by simp
  then have "sublist c (concat chunks)" by (metis sublist_appendI)
  moreover have "sublist marker c" using assms(2) by (simp add: str_includes_sublist)
  ultimately show ?thesis
    by (metis str_includes_sublist sublist_order.order.trans)
qed

lemma ganache_timer_ready: "ready (ganache_timer cb s) = ready s"
  by (cases cb) (simp_all add: ganache_timer_def)

lemma server_timer_ready: "ready (server_timer cb s) = ready s"
  by (cases cb) (simp_all add: server_timer_def)

lemma fire_due_ready:
  assumes "\<And>cb s. ready (k cb s) = ready s"
  shows "ready (fire_due k t ts st) = ready st"
proof (induction ts arbitrary: st)
  case Nil
  show ?case by simp
next
  case (Cons x ts)
  obtain due cb where x: "x = (due, cb)" by (cases x) auto
  from Cons.IH [of "k cb st"] show ?case by (simp add: x assms)
qed

lemma ganache_event_ready:
  "ready (ganache_event e s) = (ready s \<or> emits ''Listening on'' e)"
  by (cases e; cases "ready s") (simp_all add: ganache_event_def set_timeout_def)

lemma server_event_ready:
  "ready (server_event e s) = (ready s \<or> emits ''Server on port'' e)"
  by (cases e; cases "ready s") (simp_all add: server_event_def)

lemma run_events_ready:
  assumes k: "\<And>cb s. ready (k cb s) = ready s"
    and h: "\<And>e s. ready (h e s) = (ready s \<or> emits marker e)"
  shows "ready (run_events h k tr st) = (ready st \<or> list_ex (\<lambda>(d, e). emits marker e) tr)"
proof (induction tr arbitrary: st)
  case Nil
  show ?case by simp
next
  case (Cons x tr)
  obtain d e where x: "x = (d, e)" by (cases x) auto
  have "ready (advance k (clock st + d) st) = ready st"
    by (simp add: advance_def fire_due_ready [of k, OF k])
  then have "ready (h e (advance k (clock st + d) st)) = (ready st \<or> emits marker e)"
    by (simp add: h)
  with Cons.IH [of "h e (advance k (clock st + d) st)"] show ?case
    by (simp add: x disj_assoc)
qed

lemma captures_Cons:
  "captures re ((d, e) # tr) =
     (case capture re e of None \<Rightarrow> captures re tr | Some a \<Rightarrow> a # captures re tr)"
  by (cases "capture re e") (simp_all add: captures_def)

lemma deploy_event_address:
  "contractAddress (deploy_event e st) =
     (case capture address_re e of None \<Rightarrow> contractAddress st | Some a \<Rightarrow> a)"
  by (cases e) (simp_all add: deploy_event_def Let_def split: option.splits)

lemma deploy_event_network:
  "networkId (deploy_event e st) =
     (case capture network_re e of None \<Rightarrow> networkId st | Some a \<Rightarrow> a)"
  by (cases e) (simp_all add: deploy_event_def Let_def split: option.splits)

lemma deploy_fold_address:
  "contractAddress (fold deploy_event (map snd tr) st) =
     (if captures address_re tr = [] then contractAddress st
      else last (captures address_re tr))"
proof (induction tr arbitrary: st)
  case Nil
  show ?case by (simp add: captures_def)
next
  case (Cons x tr)
  obtain d e where x: "x = (d, e)" by (cases x) auto
  show ?case
    by (cases "capture address_re e")
       (simp_all add: x Cons.IH captures_Cons deploy_event_address)
qed

lemma deploy_fold_network:
  "networkId (fold deploy_event (map snd tr) st) =
     (if captures network_re tr = [] then networkId st
      else last (captures network_re tr))"
proof (induction tr arbitrary: st)
  case Nil
  show ?case by (simp add: captures_def)
next
  case (Cons x tr)
  obtain d e where x: "x = (d, e)" by (cases x) auto
  show ?case
    by (cases "capture network_re e")
       (simp_all add: x Cons.IH captures_Cons deploy_event_network)
qed

text \<open>
  A marker or a number that is split between two chunks: the text as a whole has the
  marker, the step fed with the two chunks does not see it; the text as a whole has
  the identifier 5777, the step fed with the two chunks captures 57.
\<close>

theorem split_marker_counterexample:
  "str_includes (concat [''Listen'', ''ing on 127.0.0.1:7545'']) ''Listening on''
   \<and> startGanache [(100, Stdout (concat [''Listen'', ''ing on 127.0.0.1:7545'']))] = Fulfilled ()
   \<and> \<not> ready (ganache_feed [(100, Stdout ''Listen''), (0, Stdout ''ing on 127.0.0.1:7545'')])
   \<and> startGanache [(100, Stdout ''Listen''), (0, Stdout ''ing on 127.0.0.1:7545'')]
       = Rejected StartupTimeout
   \<and> rx_exec network_re (concat [''Network id: 57'', ''77'']) = Some ''5777''
   \<and> deployContract [(0, Stdout ''Network id: 57''), (0, Stdout ''77''), (1, Close (Some 0))]
       = Fulfilled ([], ''57'')"
proof -
  have a: "str_includes (concat [''Listen'', ''ing on 127.0.0.1:7545'']) ''Listening on''"
    by simp
  have b: "startGanache [(100, Stdout (concat [''Listen'', ''ing on 127.0.0.1:7545'']))]
             = Fulfilled ()"
    by (simp add: step_eval)
  have c: "\<not> ready (ganache_feed [(100, Stdout ''Listen''), (0, Stdout ''ing on 127.0.0.1:7545'')])"
    by (simp add: step_eval)
  have d: "startGanache [(100, Stdout ''Listen''), (0, Stdout ''ing on 127.0.0.1:7545'')]
             = Rejected StartupTimeout"
    by (simp add: step_eval)
  have e: "rx_exec network_re (concat [''Network id: 57'', ''77'']) = Some ''5777''"
    by code_simp
  have f: "deployContract [(0, Stdout ''Network id: 57''), (0, Stdout ''77''), (1, Close (Some 0))]
             = Fulfilled ([], ''57'')"
    by code_simp
  show ?thesis by (rule conjI a b c d e f)+
qed

text \<open>
  Claim C3, as the code has it. Every chunk is scanned on its own; there is no
  cumulative buffer. The readiness flag of a step is set exactly when some single
  chunk contains the marker; then the unsplit text contains it as well (the converse
  fails when the marker is split). The address and the network identifier of the
  deployment step are those captured in the last chunk in which the pattern matches,
  and empty when it matches in none. So when the text arrives as one chunk, the
  result is that of scanning the text once.
\<close>

theorem matching_is_per_chunk:
  "(ready (ganache_feed tr) \<longleftrightarrow> list_ex (\<lambda>(d, e). emits ''Listening on'' e) tr)
   \<and> (ready (server_feed tr) \<longleftrightarrow> list_ex (\<lambda>(d, e). emits ''Server on port'' e) tr)
   \<and> (list_ex (\<lambda>c. str_includes c marker) chunks \<longrightarrow> str_includes (concat chunks) marker)
   \<and> contractAddress (deploy_feed tr) =
       (if captures address_re tr = [] then [] else last (captures address_re tr))
   \<and> networkId (deploy_feed tr) =
       (if captures network_re tr = [] then [] else last (captures network_re tr))
   \<and> ready (ganache_feed [(d, Stdout text)]) = str_includes text ''Listening on''
   \<and> ready (server_feed [(d, Stdout text)]) = str_includes text ''Server on port''
   \<and> deployContract [(d, Stdout text), (d', Close (Some 0))] =
       Fulfilled (case rx_exec address_re text of None \<Rightarrow> [] | Some a \<Rightarrow> a,
                  case rx_exec network_re text of None \<Rightarrow> [] | Some a \<Rightarrow> a)"
proof -
  have g: "ready (ganache_feed tr') = list_ex (\<lambda>(d, e). emits ''Listening on'' e) tr'" for tr'
    using run_events_ready [of ganache_timer ganache_event "''Listening on''" tr' ganache_init,
        OF ganache_timer_ready ganache_event_ready]
    by (simp add: ganache_feed_def ganache_init_def set_timeout_def)
  have s: "ready (server_feed tr') = list_ex (\<lambda>(d, e). emits ''Server on port'' e) tr'" for tr'
    using run_events_ready [of server_timer server_event "''Server on port''" tr' server_init,
        OF server_timer_ready server_event_ready]
    by (simp add: server_feed_def server_init_def set_timeout_def)
  have c: "list_ex (\<lambda>c. str_includes c marker) chunks \<longrightarrow> str_includes (concat chunks) marker"
    using str_includes_concat by (auto simp: list_ex_iff)
  have a: "contractAddress (deploy_feed tr) =
       (if captures address_re tr = [] then [] else last (captures address_re tr))"
    by (simp add: deploy_feed_def deploy_fold_address deploy_init_def)
  have n: "networkId (deploy_feed tr) =
       (if captures network_re tr = [] then [] else last (captures network_re tr))"
    by (simp add: deploy_feed_def deploy_fold_network deploy_init_def)
  have d: "deployContract [(d, Stdout text), (d', Close (Some 0))] =
       Fulfilled (case rx_exec address_re text of None \<Rightarrow> [] | Some a \<Rightarrow> a,
                  case rx_exec network_re text of None \<Rightarrow> [] | Some a \<Rightarrow> a)"
    by (simp add: deployContract_def deploy_feed_def deploy_event_def deploy_init_def Let_def
        split: option.splits)
  show ?thesis
    using g [of tr] s [of tr] c a n d g [of "[(d, Stdout text)]"] s [of "[(d, Stdout text)]"]
    by simp
qed

theorem matching_is_per_chunk_witness:
  "ready (ganache_feed [(100, Stdout ''Ganache''), (20, Stdout ''Listening on 127.0.0.1:7545'')])
   \<and> ready (server_feed [(100, Stdout ''Server on port 5000'')])
   \<and> list_ex (\<lambda>c. str_includes c ''Listening on'') [''Ganache'', ''Listening on 127.0.0.1:7545'']
   \<and> str_includes (concat [''Ganache'', ''Listening on 127.0.0.1:7545'']) ''Listening on''"
proof -
  let ?G = "[(100, Stdout ''Ganache''), (20, Stdout ''Listening on 127.0.0.1:7545'')] :: trace"
  let ?S = "[(100, Stdout ''Server on port 5000'')] :: trace"
  let ?C = "[''Ganache'', ''Listening on 127.0.0.1:7545'']"
  have h1: "list_ex (\<lambda>(d, e). emits ''Listening on'' e) ?G" by simp
  have h2: "list_ex (\<lambda>(d, e). emits ''Server on port'' e) ?S" by simp
  have h3: "list_ex (\<lambda>c. str_includes c ''Listening on'') ?C" by simp
  have a: "ready (ganache_feed ?G)"
    using matching_is_per_chunk [where tr = ?G] h1 by simp
  have b: "ready (server_feed ?S)"
    using matching_is_per_chunk [where tr = ?S] h2 by simp
  have c: "str_includes (concat ?C) ''Listening on''"
    using matching_is_per_chunk [where chunks = ?C and marker = "''Listening on''"] h3 by simp
  show ?thesis by (rule conjI a b c h3)+
qed

section \<open>Seeding\<close>

lemma harvest_items_all:
  "(\<forall>i<length its. net (sent @ map harvest_call (take i its)) (harvest_call (its ! i)) = None)
   \<Longrightarrow> harvest_items net its sent = (sent @ map harvest_call its, Inr ())"
proof (induction its arbitrary: sent)
  case Nil
  show ?case by simp
next
  case (Cons it its)
  from Cons.prems [rule_format, of 0] have h: "net sent (harvest_call it) = None" by simp
  have "\<forall>i<length its. net ((sent @ [harvest_call it]) @ map harvest_call (take i its))
          (harvest_call (its ! i)) = None"
  proof (intro allI impI)
    fix i assume "i < length its"
    with Cons.prems [rule_format, of "Suc i"]
    show "net ((sent @ [harvest_call it]) @ map harvest_call (take i its))
            (harvest_call (its ! i)) = None" by simp
  qed
  from Cons.IH [OF this] h show ?case by simp
qed

lemma harvest_items_rejected:
  "i < length its \<Longrightarrow>
   (\<forall>j<i. net (sent @ map harvest_call (take j its)) (harvest_call (its ! j)) = None) \<Longrightarrow>
   net (sent @ map harvest_call (take i its)) (harvest_call (its ! i)) = Some msg \<Longrightarrow>
   harvest_items net its sent
     = (sent @ map harvest_call (take (Suc i) its), Inl (CallRejected msg))"
proof (induction its arbitrary: sent i)
  case Nil
  then show ?case by simp
next
  case (Cons it its)
  show ?case
  proof (cases i)
    case 0
    with Cons.prems(3) show ?thesis by simp
  next
    case (Suc k)
    from Cons.prems(2) [rule_format, of 0] Suc
    have h: "net sent (harvest_call it) = None" by simp
    have k: "k < length its" using Cons.prems(1) Suc by simp
    have a: "\<forall>j<k. net ((sent @ [harvest_call it]) @ map harvest_call (take j its))
          (harvest_call (its ! j)) = None"
    proof (intro allI impI)
      fix j assume "j < k"
      with Cons.prems(2) [rule_format, of "Suc j"] Suc
      show "net ((sent @ [harvest_call it]) @ map harvest_call (take j its))
              (harvest_call (its ! j)) = None" by simp
    qed
    have r: "net ((sent @ [harvest_call it]) @ map harvest_call (take k its))
          (harvest_call (its ! k)) = Some msg"
      using Cons.prems(3) Suc by simp
    from Cons.IH [OF k a r] h Suc show ?thesis by simp
  qed
qed

lemma harvest_items_prefix:
  "prefix (fst (harvest_items net its sent)) (sent @ map harvest_call its)"
proof (induction its arbitrary: sent)
  case Nil
  show ?case by simp
next
  case (Cons it its)
  show ?case
  proof (cases "net sent (harvest_call it)")
    case None
    with Cons.IH [of "sent @ [harvest_call it]"] show ?thesis by simp
  next
    case (Some msg)
    then show ?thesis by simp
  qed
qed

lemma seed_all:
  assumes "\<forall>i<Suc (length items).
      net (take i (AddFarmer farmerAccount # map harvest_call items))
        ((AddFarmer farmerAccount # map harvest_call items) ! i) = None"
  shows "seed net items = (AddFarmer farmerAccount # map harvest_call items, Inr ())"
proof -
  from assms [rule_format, of 0] have h: "net [] (AddFarmer farmerAccount) = None" by simp
  have "\<forall>i<length items. net ([AddFarmer farmerAccount] @ map harvest_call (take i items))
          (harvest_call (items ! i)) = None"
  proof (intro allI impI)
    fix i assume "i < length items"
    with assms [rule_format, of "Suc i"]
    show "net ([AddFarmer farmerAccount] @ map harvest_call (take i items))
            (harvest_call (items ! i)) = None" by (simp add: take_map)
  qed
  from harvest_items_all [OF this] h show ?thesis by (simp add: seed_def)
qed

lemma seed_rejected:
  assumes "i < Suc (length items)"
    and "\<forall>j<i. net (take j (AddFarmer farmerAccount # map harvest_call items))
        ((AddFarmer farmerAccount # map harvest_call items) ! j) = None"
    and "net (take i (AddFarmer farmerAccount # map harvest_call items))
        ((AddFarmer farmerAccount # map harvest_call items) ! i) = Some msg"
  shows "seed net items
     = (take (Suc i) (AddFarmer farmerAccount # map harvest_call items),
        Inl (CallRejected msg))"
proof (cases i)
  case 0
  with assms(3) show ?thesis by (simp add: seed_def)
next
  case (Suc k)
  from assms(2) [rule_format, of 0] Suc
  have h: "net [] (AddFarmer farmerAccount) = None" by simp
  have k: "k < length items" using assms(1) Suc by simp
  have a: "\<forall>j<k. net ([AddFarmer farmerAccount] @ map harvest_call (take j items))
        (harvest_call (items ! j)) = None"
  proof (intro allI impI)
    fix j assume "j < k"
    with assms(2) [rule_format, of "Suc j"] Suc k
    show "net ([AddFarmer farmerAccount] @ map harvest_call (take j items))
            (harvest_call (items ! j)) = None" by (simp add: take_map)
  qed
  have r: "net ([AddFarmer farmerAccount] @ map harvest_call (take k items))
        (harvest_call (items ! k)) = Some msg"
    using assms(3) Suc k by (simp add: take_map)
  from harvest_items_rejected [OF k a r] h Suc show ?thesis
    by (simp add: seed_def take_map)
qed

lemma seed_prefix:
  "prefix (fst (seed net items)) (AddFarmer farmerAccount # map harvest_call items)"
  using harvest_items_prefix [of net items "[AddFarmer farmerAccount]"]
  by (simp add: seed_def split: option.splits)

lemma main_seed_failure:
  assumes "startGanache (ganache_output w) = Fulfilled ()"
    and "deployContract (migrate_output w) = Fulfilled (address, netId)"
    and "updateServerConfig netId (server_index_js w) = Inr patched"
    and "createTestData (chain w) (build_artifact w) netId = (calls, Inl e)"
  shows "failure (main w) = Some e \<and> sent_calls (main w) = calls
         \<and> children (main w) = [GanacheProc, MigrateProc]"
  using assms
  by (simp add: main_def Let_def main_catch_def cleanup_def spawn_ganache_def
      spawn_migrate_def supervisor_init_def)

text \<open>
  Claim C6. For every list of items the calls sent are a prefix of: the registration
  of the farmer, then one \<^verbatim>\<open>harvestItem\<close> per item, in the order of the list. Each call
  is put to the network after the acknowledgment of all calls before it. When the
  network acknowledges every call, exactly these calls are sent, one more than there
  are items, and seeding succeeds. When a call is rejected, it is the last call sent
  and its rejection is the error of the step. For the three items of the script the
  calls are the farmer, Mango, Rice and Wheat; the error of a failed seeding is the
  one \<^verbatim>\<open>main\<close> catches, and the server is then never started.
\<close>

theorem seeding_in_order:
  "prefix (fst (seed net items)) (AddFarmer farmerAccount # map harvest_call items)
   \<and> ((\<forall>i<Suc (length items).
          net (take i (AddFarmer farmerAccount # map harvest_call items))
            ((AddFarmer farmerAccount # map harvest_call items) ! i) = None) \<longrightarrow>
        seed net items = (AddFarmer farmerAccount # map harvest_call items, Inr ())
        \<and> length (fst (seed net items)) = length items + 1)
   \<and> (k < Suc (length items)
        \<and> (\<forall>j<k. net (take j (AddFarmer farmerAccount # map harvest_call items))
              ((AddFarmer farmerAccount # map harvest_call items) ! j) = None)
        \<and> net (take k (AddFarmer farmerAccount # map harvest_call items))
              ((AddFarmer farmerAccount # map harvest_call items) ! k) = Some msg \<longrightarrow>
        seed net items
          = (take (Suc k) (AddFarmer farmerAccount # map harvest_call items),
             Inl (CallRejected msg)))
   \<and> AddFarmer farmerAccount # map harvest_call testItems =
        [AddFarmer farmerAccount,
         HarvestItem ''Mango'' ''Mumbai'' 1000 ''Premium'',
         HarvestItem ''Rice'' ''Punjab'' 500 ''Organic'',
         HarvestItem ''Wheat'' ''Haryana'' 300 ''Standard'']
   \<and> (networks contractJSON = Some ns \<and> ns netId = Some (Some address) \<and> address \<noteq> [] \<longrightarrow>
        createTestData net (Some contractJSON) netId = seed net testItems)
   \<and> (startGanache (ganache_output w) = Fulfilled ()
        \<and> deployContract (migrate_output w) = Fulfilled (deployedAt, netId)
        \<and> updateServerConfig netId (server_index_js w) = Inr patched
        \<and> createTestData (chain w) (build_artifact w) netId = (calls, Inl e) \<longrightarrow>
        failure (main w) = Some e \<and> sent_calls (main w) = calls
        \<and> ServerProc \<notin> set (children (main w)))"
proof (intro conjI impI)
  show "prefix (fst (seed net items)) (AddFarmer farmerAccount # map harvest_call items)"
    by (rule seed_prefix)
next
  assume a: "\<forall>i<Suc (length items).
          net (take i (AddFarmer farmerAccount # map harvest_call items))
            ((AddFarmer farmerAccount # map harvest_call items) ! i) = None"
  from seed_all [OF a]
  show "seed net items = (AddFarmer farmerAccount # map harvest_call items, Inr ())" .
  from seed_all [OF a] show "length (fst (seed net items)) = length items + 1" by simp
next
  assume "k < Suc (length items)
        \<and> (\<forall>j<k. net (take j (AddFarmer farmerAccount # map harvest_call items))
              ((AddFarmer farmerAccount # map harvest_call items) ! j) = None)
        \<and> net (take k (AddFarmer farmerAccount # map harvest_call items))
              ((AddFarmer farmerAccount # map harvest_call items) ! k) = Some msg"
  then show "seed net items
          = (take (Suc k) (AddFarmer farmerAccount # map harvest_call items),
             Inl (CallRejected msg))"
    using seed_rejected [of k items net msg] by simp
next
  show "AddFarmer farmerAccount # map harvest_call testItems =
        [AddFarmer farmerAccount,
         HarvestItem ''Mango'' ''Mumbai'' 1000 ''Premium'',
         HarvestItem ''Rice'' ''Punjab'' 500 ''Organic'',
         HarvestItem ''Wheat'' ''Haryana'' 300 ''Standard'']"
    by (simp add: testItems_def harvest_call_def)
next
  assume "networks contractJSON = Some ns \<and> ns netId = Some (Some address) \<and> address \<noteq> []"
  then show "createTestData net (Some contractJSON) netId = seed net testItems"
    by (simp add: createTestData_def)
next
  assume a: "startGanache (ganache_output w) = Fulfilled ()
        \<and> deployContract (migrate_output w) = Fulfilled (deployedAt, netId)
        \<and> updateServerConfig netId (server_index_js w) = Inr patched
        \<and> createTestData (chain w) (build_artifact w) netId = (calls, Inl e)"
  then have m: "failure (main w) = Some e \<and> sent_calls (main w) = calls
         \<and> children (main w) = [GanacheProc, MigrateProc]"
    using main_seed_failure [of w deployedAt netId patched calls e] by simp
  from m show "failure (main w) = Some e" by simp
  from m show "sent_calls (main w) = calls" by simp
  from m show "ServerProc \<notin> set (children (main w))" by simp
qed

theorem seeding_in_order_witness:
  "seed (\<lambda>acked c. None) testItems
     = (AddFarmer farmerAccount # map harvest_call testItems, Inr ())
   \<and> length (fst (seed (\<lambda>acked c. None) testItems)) = length testItems + 1
   \<and> seed (\<lambda>acked c. if length acked = 2 then Some ''revert'' else None) testItems
     = (take (Suc 2) (AddFarmer farmerAccount # map harvest_call testItems),
        Inl (CallRejected ''revert''))
   \<and> failure (main (scenario\<lparr>chain :=
         (\<lambda>acked c. if length acked = 2 then Some ''revert'' else None)\<rparr>))
     = Some (CallRejected ''revert'')
   \<and> ServerProc \<notin> set (children (main (scenario\<lparr>chain :=
         (\<lambda>acked c. if length acked = 2 then Some ''revert'' else None)\<rparr>)))"
proof -
  let ?ok = "(\<lambda>acked c. None) :: network"
  let ?no = "(\<lambda>acked c. if length acked = 2 then Some ''revert'' else None) :: network"
  let ?full = "AddFarmer farmerAccount # map harvest_call testItems"
  let ?W = "scenario\<lparr>chain := ?no\<rparr>"
  let ?A = "''0xABCDEF0123456789ABCDEF0123456789ABCDEF01''"
  let ?J = "\<lparr>abi = [], networks = Some (\<lambda>n. if n = ''5777'' then Some (Some ''0xABCDEF'') else None)\<rparr>"
  have h1: "\<forall>i<Suc (length testItems). ?ok (take i ?full) (?full ! i) = None" by simp
  have h2: "2 < Suc (length testItems)" by (simp add: testItems_def)
  have h3: "\<forall>j<2. ?no (take j ?full) (?full ! j) = None" by (simp add: testItems_def)
  have h4: "?no (take 2 ?full) (?full ! 2) = Some ''revert''" by (simp add: testItems_def)
  note ok = seeding_in_order [where net = ?ok and items = testItems]
  have ab: "seed ?ok testItems = (?full, Inr ())
      \<and> length (fst (seed ?ok testItems)) = length testItems + 1"
    by (rule ok [THEN conjunct2, THEN conjunct1, THEN mp, OF h1])
  note a = ab [THEN conjunct1] and b = ab [THEN conjunct2]
  have h: "2 < Suc (length testItems) \<and> (\<forall>j<2. ?no (take j ?full) (?full ! j) = None)
      \<and> ?no (take 2 ?full) (?full ! 2) = Some ''revert''"
    using h2 h3 h4 by (intro conjI)
  have j: "networks ?J = Some (\<lambda>n. if n = ''5777'' then Some (Some ''0xABCDEF'') else None)
      \<and> (\<lambda>n. if n = ''5777'' then Some (Some ''0xABCDEF'') else None) ''5777''
          = Some (Some ''0xABCDEF'')
      \<and> ''0xABCDEF'' \<noteq> []"
    by simp
  have g: "startGanache (ganache_output ?W) = Fulfilled ()"
    by (simp add: scenario_def step_eval)
  have m: "deployContract (migrate_output scenario) = Fulfilled (?A, ''5777'')"
    by code_simp
  then have m': "deployContract (migrate_output ?W) = Fulfilled (?A, ''5777'')" by simp
  have u: "updateServerConfig ''5777'' (server_index_js ?W)
             = Inr (decl_open @ ''5777'' @ decl_close)"
    by (simp add: scenario_def patch_eval)
  note no = seeding_in_order [where net = ?no and items = testItems and k = 2
      and msg = "''revert''" and contractJSON = ?J
      and ns = "\<lambda>n. if n = ''5777'' then Some (Some ''0xABCDEF'') else None"
      and netId = "''5777''" and address = "''0xABCDEF''"
      and w = ?W and deployedAt = ?A
      and calls = "take (Suc 2) ?full" and e = "CallRejected ''revert''"
      and patched = "decl_open @ ''5777'' @ decl_close"]
  have c: "seed ?no testItems = (take (Suc 2) ?full, Inl (CallRejected ''revert''))"
    by (rule no [THEN conjunct2, THEN conjunct2, THEN conjunct1, THEN mp, OF h])
  have d: "createTestData ?no (Some ?J) ''5777'' = seed ?no testItems"
    by (rule no [THEN conjunct2, THEN conjunct2, THEN conjunct2, THEN conjunct2,
          THEN conjunct1, THEN mp, OF j])
  have t: "createTestData (chain ?W) (build_artifact ?W) ''5777''
             = (take (Suc 2) ?full, Inl (CallRejected ''revert''))"
    using c d by (simp add: scenario_def)
  have gmut: "startGanache (ganache_output ?W) = Fulfilled ()
      \<and> deployContract (migrate_output ?W) = Fulfilled (?A, ''5777'')
      \<and> updateServerConfig ''5777'' (server_index_js ?W) = Inr (decl_open @ ''5777'' @ decl_close)
      \<and> createTestData (chain ?W) (build_artifact ?W) ''5777''
          = (take (Suc 2) ?full, Inl (CallRejected ''revert''))"
    using g m' u t by (intro conjI)
  have e: "failure (main ?W) = Some (CallRejected ''revert'')
           \<and> sent_calls (main ?W) = take (Suc 2) ?full
           \<and> ServerProc \<notin> set (children (main ?W))"
    by (rule no [THEN conjunct2, THEN conjunct2, THEN conjunct2, THEN conjunct2,
          THEN conjunct2, THEN mp, OF gmut])
  note e1 = e [THEN conjunct1] and e3 = e [THEN conjunct2, THEN conjunct2]
  show ?thesis by (rule conjI a b c e1 e3)+
qed

section \<open>Teardown and the exit status\<close>

lemma main_exit_status:
  "exit_status (main w) = (if failure (main w) = None then None else Some 0)"
  by (simp add: main_def Let_def main_catch_def waiting_def cleanup_def
      split: promise.splits sum.splits prod.splits)

text \<open>
  Claim C1 fails on the code. When the network process exits with code 1 before it is
  ready, \<^verbatim>\<open>startGanache\<close> rejects, \<^verbatim>\<open>main\<close> catches the error and calls \<^verbatim>\<open>cleanup\<close>,
  which ends the script with \<^verbatim>\<open>process.exit(0)\<close>: the \<^verbatim>\<open>process.exit(1)\<close> behind the
  call is never reached, and the exit status of the failed run is 0.
\<close>

theorem failed_run_exits_with_zero:
  "failure (main ganache_crash) = Some (ProcessExitedEarly (Some 1))
   \<and> exit_status (main ganache_crash) = Some 0"
proof -
  have "startGanache (ganache_output ganache_crash) = Rejected (ProcessExitedEarly (Some 1))"
    by (simp add: ganache_crash_def scenario_def step_eval)
  then show ?thesis
    by (simp add: main_def Let_def main_catch_def cleanup_def)
qed

text \<open>
  The migration is spawned but held in a local constant: when the run fails in the
  deployment step, and when teardown is called while the migration runs, only the
  network process is signalled.
\<close>

theorem migrate_not_signalled_counterexample:
  "children (main migrate_crash) = [GanacheProc, MigrateProc]
   \<and> signalled (main migrate_crash) = [(GanacheProc, SIGTERM)]
   \<and> spawned (spawn_migrate (spawn_ganache supervisor_init)) = [GanacheProc, MigrateProc]
   \<and> fst (cleanup (spawn_migrate (spawn_ganache supervisor_init))) = [(GanacheProc, SIGTERM)]"
proof -
  have g: "startGanache (ganache_output migrate_crash) = Fulfilled ()"
    by (simp add: migrate_crash_def scenario_def step_eval)
  have m: "deployContract (migrate_output migrate_crash) = Rejected (ProcessExitedEarly (Some 1))"
    by (simp add: migrate_crash_def deployContract_def deploy_feed_def deploy_event_def
        deploy_init_def)
  have a: "children (main migrate_crash) = [GanacheProc, MigrateProc]"
    using g m
    by (simp add: main_def Let_def main_catch_def cleanup_def spawn_ganache_def
        spawn_migrate_def supervisor_init_def)
  have b: "signalled (main migrate_crash) = [(GanacheProc, SIGTERM)]"
    using g m
    by (simp add: main_def Let_def main_catch_def cleanup_def spawn_ganache_def
        spawn_migrate_def supervisor_init_def)
  have c: "spawned (spawn_migrate (spawn_ganache supervisor_init)) = [GanacheProc, MigrateProc]"
    by (simp add: spawn_ganache_def spawn_migrate_def supervisor_init_def)
  have d: "fst (cleanup (spawn_migrate (spawn_ganache supervisor_init)))
             = [(GanacheProc, SIGTERM)]"
    by (simp add: cleanup_def spawn_ganache_def spawn_migrate_def supervisor_init_def)
  show ?thesis by (rule conjI a b c d)+
qed

text \<open>
  Claim C2, as the code has it. The network process and the server process are
  registered with the supervisor at their spawn; the migration is not registered.
  Teardown sends the termination signal to every registered process: in a failed run
  these are the processes spawned other than the migration, in the order of their
  start, and the migration is never signalled.
\<close>

theorem teardown_signals_registered:
  "ganacheProcess (spawn_ganache sv) = Some GanacheProc
   \<and> serverProcess (spawn_server sv) = Some ServerProc
   \<and> ganacheProcess (spawn_migrate sv) = ganacheProcess sv
   \<and> serverProcess (spawn_migrate sv) = serverProcess sv
   \<and> (failure (main w) \<noteq> None \<longrightarrow>
        signalled (main w)
          = map (\<lambda>p. (p, SIGTERM)) (filter (\<lambda>p. p \<noteq> MigrateProc) (children (main w))))
   \<and> (MigrateProc, s) \<notin> set (signalled (main w))"
  by (simp add: spawn_ganache_def spawn_server_def spawn_migrate_def supervisor_init_def
      main_def Let_def main_catch_def waiting_def cleanup_def
      split: promise.splits sum.splits prod.splits)

theorem teardown_signals_registered_witness:
  "failure (main migrate_crash) \<noteq> None
   \<and> signalled (main migrate_crash)
        = map (\<lambda>p. (p, SIGTERM)) (filter (\<lambda>p. p \<noteq> MigrateProc) (children (main migrate_crash)))"
proof -
  have g: "startGanache (ganache_output migrate_crash) = Fulfilled ()"
    by (simp add: migrate_crash_def scenario_def step_eval)
  have m: "deployContract (migrate_output migrate_crash) = Rejected (ProcessExitedEarly (Some 1))"
    by (simp add: migrate_crash_def deployContract_def deploy_feed_def deploy_event_def
        deploy_init_def)
  have f: "failure (main migrate_crash) \<noteq> None"
    using g m by (simp add: main_def Let_def main_catch_def cleanup_def)
  from teardown_signals_registered [where w = migrate_crash] f
  have "signalled (main migrate_crash)
        = map (\<lambda>p. (p, SIGTERM)) (filter (\<lambda>p. p \<noteq> MigrateProc) (children (main migrate_crash)))"
    by blast
  with f show ?thesis by (rule conjI)
qed

end
